theory Spec2Isabelle
  imports Main
begin

section \<open>Data model\<close>

text \<open>
  The solver works on a 9x9 array of cells. A plain board holds \<open>string | null\<close> in each
  cell; a board with provenance holds a record of a value and a source tag
  (\<open>'user' | 'system' | null\<close>). JavaScript's \<open>null\<close> is \<open>None\<close>.

  Every loop of the source runs its indices over \<open>0..8\<close> and reads \<open>board[i][j]\<close>
  without a bounds check, so all statements below are made for boards of nine rows of nine
  cells (\<open>wf_board\<close>); on any other shape the source reads \<open>undefined\<close> or throws, and
  nothing is claimed about it.
\<close>

type_synonym SudokuBoard = "string option list list"

datatype provenance = User | System

record SudokuCell =
  cell_value :: "string option"
  cell_source :: "provenance option"

type_synonym SudokuBoardWithSource = "SudokuCell list list"

definition wf_board :: "'a list list \<Rightarrow> bool" where
  "wf_board b \<longleftrightarrow> length b = 9 \<and> list_all (\<lambda>r. length r = 9) b"

text \<open>The array of the nine symbols, \<open>'1'\<close> to \<open>'9'\<close>, in the order in which the source
  writes it.\<close>

definition digits :: "string list" where
  "digits = ''1'' # ''2'' # ''3'' # ''4'' # ''5'' # ''6'' # ''7'' # ''8'' # ''9'' # []"

text \<open>The cells in the order of the nested loops \<open>for i in 0..8, for j in 0..8\<close>.\<close>

definition all_cells :: "(nat \<times> nat) list" where
  "all_cells = List.product [0..<9] [0..<9]"

section \<open>The uniqueness invariant of the specification\<close>

definition filled :: "string option list \<Rightarrow> string list" where
  "filled xs = map the (filter (\<lambda>x. x \<noteq> None) xs)"

definition square_cells :: "nat \<Rightarrow> (nat \<times> nat) list" where
  "square_cells k =
     List.product [(k div 3) * 3 ..< (k div 3) * 3 + 3] [(k mod 3) * 3 ..< (k mod 3) * 3 + 3]"

definition row_of :: "SudokuBoard \<Rightarrow> nat \<Rightarrow> string option list" where
  "row_of b i = map (\<lambda>j. b ! i ! j) [0..<9]"

definition col_of :: "SudokuBoard \<Rightarrow> nat \<Rightarrow> string option list" where
  "col_of b j = map (\<lambda>i. b ! i ! j) [0..<9]"

definition square_of :: "SudokuBoard \<Rightarrow> nat \<Rightarrow> string option list" where
  "square_of b k = map (\<lambda>(r, c). b ! r ! c) (square_cells k)"

text \<open>No row, column or 3x3 block holds the same symbol in two of its filled cells.\<close>

definition unique_inv :: "SudokuBoard \<Rightarrow> bool" where
  "unique_inv b \<longleftrightarrow>
     list_all (\<lambda>k. distinct (filled (row_of b k)) \<and> distinct (filled (col_of b k)) \<and>
                   distinct (filled (square_of b k))) [0..<9]"

definition no_empty :: "SudokuBoard \<Rightarrow> bool" where
  "no_empty b \<longleftrightarrow> list_all (\<lambda>r. list_all (\<lambda>x. x \<noteq> None) r) b"

definition count_empty :: "SudokuBoard \<Rightarrow> nat" where
  "count_empty b = length (filter (\<lambda>x. x = None) (concat b))"

section \<open>class SudokuSolver\<close>

text \<open>
  A JavaScript \<open>Set\<close> keeps its elements without repetition in the order of their first
  insertion; it is modelled as the list of its elements in that order. \<open>s.has(x)\<close> is
  \<open>x \<in> set s\<close>, \<open>s.size\<close> is \<open>length s\<close>, \<open>Array.from(s)[0]\<close> is \<open>s ! 0\<close>.
\<close>

type_synonym 'a js_set = "'a list"

definition set_add :: "'a \<Rightarrow> 'a js_set \<Rightarrow> 'a js_set" where
  "set_add x s = (if x \<in> set s then s else s @ [x])"

definition set_delete :: "'a \<Rightarrow> 'a js_set \<Rightarrow> 'a js_set" where
  "set_delete x s = removeAll x s"

definition new_Set :: "'a list \<Rightarrow> 'a js_set" where
  "new_Set xs = fold set_add xs []"

text \<open>The private fields \<open>board\<close>, \<open>_rows\<close>, \<open>_cols\<close>, \<open>_squares\<close>.\<close>

record SudokuSolver =
  board :: SudokuBoard
  rows :: "string js_set list"
  cols :: "string js_set list"
  squares :: "string js_set list"

definition getSquareIndex :: "nat \<Rightarrow> nat \<Rightarrow> nat" where
  "getSquareIndex row col = (row div 3) * 3 + col div 3"

text \<open>The three \<open>add\<close> calls and the three \<open>delete\<close> calls that the source writes out at
  each placement and undo.\<close>

definition add_constraints :: "SudokuSolver \<Rightarrow> nat \<Rightarrow> nat \<Rightarrow> string \<Rightarrow> SudokuSolver" where
  "add_constraints s i j num =
     s\<lparr>rows := (rows s)[i := set_add num (rows s ! i)],
       cols := (cols s)[j := set_add num (cols s ! j)],
       squares := (squares s)[getSquareIndex i j :=
                     set_add num (squares s ! getSquareIndex i j)]\<rparr>"

definition delete_constraints :: "SudokuSolver \<Rightarrow> nat \<Rightarrow> nat \<Rightarrow> string \<Rightarrow> SudokuSolver" where
  "delete_constraints s i j num =
     s\<lparr>rows := (rows s)[i := set_delete num (rows s ! i)],
       cols := (cols s)[j := set_delete num (cols s ! j)],
       squares := (squares s)[getSquareIndex i j :=
                     set_delete num (squares s ! getSquareIndex i j)]\<rparr>"

definition initializeConstraints :: "SudokuSolver \<Rightarrow> SudokuSolver" where
  "initializeConstraints s =
     fold (\<lambda>(i, j) s. case board s ! i ! j of
                        None \<Rightarrow> s
                      | Some num \<Rightarrow> add_constraints s i j num) all_cells s"

definition constructor :: "SudokuBoard \<Rightarrow> SudokuSolver" where
  "constructor b =
     initializeConstraints
       \<lparr>board = map (\<lambda>row. row) b, rows = replicate 9 [], cols = replicate 9 [],
        squares = replicate 9 []\<rparr>"

definition getValidNumbers :: "SudokuSolver \<Rightarrow> nat \<Rightarrow> nat \<Rightarrow> string list" where
  "getValidNumbers s row col =
     (let used = new_Set (rows s ! row @ cols s ! col @ squares s ! getSquareIndex row col)
      in filter (\<lambda>num. num \<notin> set used) digits)"

text \<open>
  \<open>findBestCell\<close>: the two nested loops with the running \<open>bestCell\<close> and \<open>minOptions\<close>, and
  the early \<open>return\<close> as soon as a cell with exactly one option lowers the minimum.
  The result object \<open>{row, col, options}\<close> is a triple.
\<close>

fun findBestCell_loop ::
  "SudokuSolver \<Rightarrow> (nat \<times> nat) list \<Rightarrow> (nat \<times> nat \<times> string list) option \<Rightarrow> nat \<Rightarrow>
   (nat \<times> nat \<times> string list) option" where
  "findBestCell_loop s [] bestCell minOptions = bestCell"
| "findBestCell_loop s ((i, j) # cs) bestCell minOptions =
     (if board s ! i ! j = None then
        (let options = getValidNumbers s i j in
         if length options < minOptions then
           (if length options = 1 then Some (i, j, options)
            else findBestCell_loop s cs (Some (i, j, options)) (length options))
         else findBestCell_loop s cs bestCell minOptions)
      else findBestCell_loop s cs bestCell minOptions)"

definition findBestCell :: "SudokuSolver \<Rightarrow> (nat \<times> nat \<times> string list) option" where
  "findBestCell s = findBestCell_loop s all_cells None 10"

text \<open>The body of the \<open>for (const num of options)\<close> loop: the placement and its undo.\<close>

definition place :: "SudokuSolver \<Rightarrow> nat \<Rightarrow> nat \<Rightarrow> string \<Rightarrow> SudokuSolver" where
  "place s row col num =
     add_constraints (s\<lparr>board := (board s)[row := (board s ! row)[col := Some num]]\<rparr>) row col num"

definition unplace :: "SudokuSolver \<Rightarrow> nat \<Rightarrow> nat \<Rightarrow> string \<Rightarrow> SudokuSolver" where
  "unplace s row col num =
     delete_constraints (s\<lparr>board := (board s)[row := (board s ! row)[col := None]]\<rparr>) row col num"

text \<open>
  \<open>backtrack\<close> is recursive with no bound of its own, so the model carries a bound on the
  recursion depth: \<open>None\<close> means the bound was reached, \<open>Some (ok, s)\<close> is the boolean the
  source returns together with the solver's fields afterwards. \<open>try_options\<close> is the
  \<open>for\<close> loop, \<open>recur\<close> the recursive call \<open>this.backtrack()\<close>.
\<close>

fun try_options ::
  "(SudokuSolver \<Rightarrow> (bool \<times> SudokuSolver) option) \<Rightarrow> SudokuSolver \<Rightarrow> nat \<Rightarrow> nat \<Rightarrow>
   string list \<Rightarrow> (bool \<times> SudokuSolver) option" where
  "try_options recur s row col [] = Some (False, s)"
| "try_options recur s row col (num # rest) =
     (case recur (place s row col num) of
        None \<Rightarrow> None
      | Some (ok, s') \<Rightarrow>
          if ok then Some (True, s')
          else try_options recur (unplace s' row col num) row col rest)"

primrec backtrack :: "nat \<Rightarrow> SudokuSolver \<Rightarrow> (bool \<times> SudokuSolver) option" where
  "backtrack 0 s = None"
| "backtrack (Suc n) s =
     (case findBestCell s of
        None \<Rightarrow> Some (True, s)
      | Some (row, col, options) \<Rightarrow> try_options (backtrack n) s row col options)"

text \<open>
  \<open>new SudokuSolver(g).solve()\<close>. Each level of the recursion fills one more empty cell, so
  depth 82 is never reached on a 9x9 board (\<open>solve_returns\<close> below). The outer \<open>None\<close> is
  the depth bound, \<open>Some None\<close> is the source's \<open>null\<close>, \<open>Some (Some g')\<close> the solved board.
\<close>

definition solve :: "SudokuBoard \<Rightarrow> SudokuBoard option option" where
  "solve g =
     (case backtrack 82 (constructor g) of
        None \<Rightarrow> None
      | Some (ok, s) \<Rightarrow> Some (if ok then Some (board s) else None))"

text \<open>\<open>static isValidBoard\<close>: the scan with its three local families of sets and the early
  \<open>return false\<close>. The board is only read.\<close>

fun isValidBoard_loop ::
  "SudokuBoard \<Rightarrow> (nat \<times> nat) list \<Rightarrow> string js_set list \<Rightarrow> string js_set list \<Rightarrow>
   string js_set list \<Rightarrow> bool" where
  "isValidBoard_loop b [] rs cs sqs = True"
| "isValidBoard_loop b ((i, j) # rest) rs cs sqs =
     (case b ! i ! j of
        None \<Rightarrow> isValidBoard_loop b rest rs cs sqs
      | Some num \<Rightarrow>
          (let squareIndex = (i div 3) * 3 + j div 3 in
           if num \<in> set (rs ! i) \<or> num \<in> set (cs ! j) \<or> num \<in> set (sqs ! squareIndex)
           then False
           else isValidBoard_loop b rest (rs[i := set_add num (rs ! i)])
                  (cs[j := set_add num (cs ! j)])
                  (sqs[squareIndex := set_add num (sqs ! squareIndex)])))"

definition isValidBoard :: "SudokuBoard \<Rightarrow> bool" where
  "isValidBoard b =
     isValidBoard_loop b all_cells (replicate 9 []) (replicate 9 []) (replicate 9 [])"

section \<open>Boards with provenance\<close>

definition boardWithSourceToSimple :: "SudokuBoardWithSource \<Rightarrow> SudokuBoard" where
  "boardWithSourceToSimple b = map (\<lambda>row. map cell_value row) b"

definition applySolutionToBoard ::
  "SudokuBoardWithSource \<Rightarrow> SudokuBoard \<Rightarrow> SudokuBoardWithSource" where
  "applySolutionToBoard originalBoard solution =
     map (\<lambda>(i, row).
            map (\<lambda>(j, cell).
                   if cell_value cell = None \<and> solution ! i ! j \<noteq> None
                   then \<lparr>cell_value = solution ! i ! j, cell_source = Some System\<rparr>
                   else cell)
                (enumerate 0 row))
         (enumerate 0 originalBoard)"

section \<open>autoSolveCells\<close>

text \<open>
  The variables that the closures of \<open>autoSolveCells\<close> share: the \<open>PublicSudokuSolver\<close>,
  the copy \<open>newBoard\<close>, the candidate map and the two change flags. The candidate map is
  keyed in the source by the string \<open>`${i}-${j}`\<close>, which determines the pair \<open>(i, j)\<close>; the
  model keys it by the pair.
\<close>

record auto_state =
  solver :: SudokuSolver
  newBoard :: SudokuBoardWithSource
  candidates :: "nat \<times> nat \<rightharpoonup> string js_set"
  hasChanges :: bool
  iterationChanges :: bool

text \<open>\<open>PublicSudokuSolver.setBoardCell\<close>, with its guard that the cell exists.\<close>

definition setBoardCell :: "SudokuSolver \<Rightarrow> nat \<Rightarrow> nat \<Rightarrow> string option \<Rightarrow> SudokuSolver" where
  "setBoardCell s row col v =
     (if row < length (board s) \<and> col < length (board s ! row)
      then s\<lparr>board := (board s)[row := (board s ! row)[col := v]]\<rparr>
      else s)"

definition initializeCandidates :: "auto_state \<Rightarrow> auto_state" where
  "initializeCandidates st =
     fold (\<lambda>(i, j) st.
             if cell_value (newBoard st ! i ! j) = None
             then st\<lparr>candidates := (candidates st)((i, j) \<mapsto> new_Set (getValidNumbers (solver st) i j))\<rparr>
             else st)
          all_cells (st\<lparr>candidates := Map.empty\<rparr>)"

text \<open>\<open>removeCandidate\<close> returns whether it removed something, and the updated variables.\<close>

definition removeCandidate :: "auto_state \<Rightarrow> nat \<Rightarrow> nat \<Rightarrow> string \<Rightarrow> bool \<times> auto_state" where
  "removeCandidate st row col num =
     (case candidates st (row, col) of
        Some cellCandidates \<Rightarrow>
          if num \<in> set cellCandidates
          then (True, st\<lparr>candidates :=
                         (candidates st)((row, col) \<mapsto> set_delete num cellCandidates)\<rparr>)
          else (False, st)
      | None \<Rightarrow> (False, st))"

definition updateCell :: "auto_state \<Rightarrow> nat \<Rightarrow> nat \<Rightarrow> string \<Rightarrow> auto_state" where
  "updateCell st row col v =
     (let st1 = st\<lparr>newBoard := (newBoard st)[row := (newBoard st ! row)
                     [col := \<lparr>cell_value = Some v, cell_source = Some System\<rparr>]],
                   hasChanges := True, iterationChanges := True\<rparr>;
          st2 = st1\<lparr>solver := add_constraints (setBoardCell (solver st1) row col (Some v)) row col v\<rparr>;
          st3 = st2\<lparr>candidates := (candidates st2)((row, col) := None)\<rparr>;
          squareIndex = getSquareIndex row col;
          startRow = (squareIndex div 3) * 3;
          startCol = (squareIndex mod 3) * 3;
          st4 = fold (\<lambda>i st. snd (removeCandidate (snd (removeCandidate st row i v)) i col v))
                  [0..<9] st3
      in fold (\<lambda>(r, c) st. snd (removeCandidate st r c v))
           (List.product [startRow..<startRow + 3] [startCol..<startCol + 3]) st4)"

text \<open>Whether the cell is empty on \<open>newBoard\<close> and still lists \<open>num\<close> as a candidate: the
  test that all hidden-single and box/line scans make.\<close>

definition has_candidate :: "auto_state \<Rightarrow> nat \<Rightarrow> nat \<Rightarrow> string \<Rightarrow> bool" where
  "has_candidate st r c num \<longleftrightarrow>
     cell_value (newBoard st ! r ! c) = None \<and>
     (case candidates st (r, c) of
        Some cellCandidates \<Rightarrow> num \<in> set cellCandidates
      | None \<Rightarrow> False)"

text \<open>Technique 1: naked singles.\<close>

definition nakedSingles :: "auto_state \<Rightarrow> auto_state" where
  "nakedSingles st =
     fold (\<lambda>(i, j) st.
             if cell_value (newBoard st ! i ! j) = None then
               (case candidates st (i, j) of
                  Some cellCandidates \<Rightarrow>
                    if length cellCandidates = 1 then updateCell st i j (cellCandidates ! 0)
                    else st
                | None \<Rightarrow> st)
             else st)
          all_cells st"

text \<open>Technique 2: hidden singles in rows, columns and squares.\<close>

definition hiddenRows :: "auto_state \<Rightarrow> auto_state" where
  "hiddenRows st =
     fold (\<lambda>(row, num) st.
             if num \<in> set (rows (solver st) ! row) then st
             else (let possibleCols = filter (\<lambda>col. has_candidate st row col num) [0..<9] in
                   if length possibleCols = 1 then updateCell st row (possibleCols ! 0) num
                   else st))
          (List.product [0..<9] digits) st"

definition hiddenCols :: "auto_state \<Rightarrow> auto_state" where
  "hiddenCols st =
     fold (\<lambda>(col, num) st.
             if num \<in> set (cols (solver st) ! col) then st
             else (let possibleRows = filter (\<lambda>row. has_candidate st row col num) [0..<9] in
                   if length possibleRows = 1 then updateCell st (possibleRows ! 0) col num
                   else st))
          (List.product [0..<9] digits) st"

definition hiddenSquares :: "auto_state \<Rightarrow> auto_state" where
  "hiddenSquares st =
     fold (\<lambda>(squareIndex, num) st.
             if num \<in> set (squares (solver st) ! squareIndex) then st
             else (let startRow = (squareIndex div 3) * 3;
                       startCol = (squareIndex mod 3) * 3;
                       possibleCells =
                         filter (\<lambda>(r, c). has_candidate st r c num)
                           (List.product [startRow..<startRow + 3] [startCol..<startCol + 3])
                   in if length possibleCells = 1
                      then updateCell st (fst (possibleCells ! 0)) (snd (possibleCells ! 0)) num
                      else st))
          (List.product [0..<9] digits) st"

text \<open>Technique 3: box/line reduction. A successful removal sets both change flags.\<close>

definition removeFlagged :: "auto_state \<Rightarrow> nat \<Rightarrow> nat \<Rightarrow> string \<Rightarrow> auto_state" where
  "removeFlagged st r c num =
     (if cell_value (newBoard st ! r ! c) = None then
        (case removeCandidate st r c num of
           (True, st') \<Rightarrow> st'\<lparr>iterationChanges := True, hasChanges := True\<rparr>
         | (False, st') \<Rightarrow> st')
      else st)"

definition boxLineStep :: "nat \<Rightarrow> string \<Rightarrow> auto_state \<Rightarrow> auto_state" where
  "boxLineStep squareIndex num st =
     (if num \<in> set (squares (solver st) ! squareIndex) then st
      else
        (let startRow = (squareIndex div 3) * 3;
             startCol = (squareIndex mod 3) * 3;
             cells = List.product [startRow..<startRow + 3] [startCol..<startCol + 3];
             rowsWithPossibility =
               new_Set (map fst (filter (\<lambda>(r, c). has_candidate st r c num) cells));
             st1 = (if length rowsWithPossibility = 1 then
                      fold (\<lambda>col st.
                              if startCol \<le> col \<and> col < startCol + 3 then st
                              else removeFlagged st (rowsWithPossibility ! 0) col num)
                           [0..<9] st
                    else st);
             colsWithPossibility =
               new_Set (map snd (filter (\<lambda>(r, c). has_candidate st1 r c num) cells))
         in if length colsWithPossibility = 1 then
              fold (\<lambda>row st.
                      if startRow \<le> row \<and> row < startRow + 3 then st
                      else removeFlagged st row (colsWithPossibility ! 0) num)
                   [0..<9] st1
            else st1))"

definition boxLineReduction :: "auto_state \<Rightarrow> auto_state" where
  "boxLineReduction st =
     fold (\<lambda>(squareIndex, num) st. boxLineStep squareIndex num st) (List.product [0..<9] digits) st"

definition propagation_round :: "auto_state \<Rightarrow> auto_state" where
  "propagation_round st =
     boxLineReduction (hiddenSquares (hiddenCols (hiddenRows (nakedSingles st))))"

text \<open>
  The main loop \<open>while (iterationChanges && maxIterations > 0)\<close>; the first argument is the
  value of \<open>maxIterations\<close>, which starts at 10 and is decremented in every round.
\<close>

definition maxIterations :: nat where
  "maxIterations = 10"

fun main_loop :: "nat \<Rightarrow> auto_state \<Rightarrow> auto_state" where
  "main_loop 0 st = st"
| "main_loop (Suc n) st =
     (if iterationChanges st
      then main_loop n (propagation_round (st\<lparr>iterationChanges := False\<rparr>))
      else st)"

text \<open>The number of rounds that the main loop executes from a given state.\<close>

fun rounds_run :: "nat \<Rightarrow> auto_state \<Rightarrow> nat" where
  "rounds_run 0 st = 0"
| "rounds_run (Suc n) st =
     (if iterationChanges st
      then Suc (rounds_run n (propagation_round (st\<lparr>iterationChanges := False\<rparr>)))
      else 0)"

definition auto_init :: "SudokuBoardWithSource \<Rightarrow> auto_state" where
  "auto_init b =
     initializeCandidates
       \<lparr>solver = constructor (boardWithSourceToSimple b),
        newBoard = map (\<lambda>row. map (\<lambda>cell. cell) row) b,
        candidates = Map.empty, hasChanges = False, iterationChanges = True\<rparr>"

definition autoSolveCells :: "SudokuBoardWithSource \<Rightarrow> SudokuBoardWithSource" where
  "autoSolveCells b =
     (if \<not> isValidBoard (boardWithSourceToSimple b) then b
      else (let st = main_loop maxIterations (auto_init b)
            in if hasChanges st then newBoard st else b))"

section \<open>Notions used in the proofs\<close>

text \<open>
  The value of a cell given as a pair, the relation between two cells that share a row, a
  column or a square, the uniqueness invariant restricted to a set of cells, and the
  statement that three families of sets hold exactly the symbols of the cells of a set
  (as the sets of \<open>isValidBoard\<close> and of the solver do for the cells scanned so far).
\<close>

definition cell_at :: "SudokuBoard \<Rightarrow> nat \<times> nat \<Rightarrow> string option" where
  "cell_at b p = b ! fst p ! snd p"

definition related :: "nat \<times> nat \<Rightarrow> nat \<times> nat \<Rightarrow> bool" where
  "related p q \<longleftrightarrow>
     fst p = fst q \<or> snd p = snd q \<or>
     getSquareIndex (fst p) (snd p) = getSquareIndex (fst q) (snd q)"

definition conflict_free_on :: "(nat \<times> nat) set \<Rightarrow> SudokuBoard \<Rightarrow> bool" where
  "conflict_free_on A b \<longleftrightarrow>
     (\<forall>p\<in>A. \<forall>q\<in>A. cell_at b p \<noteq> None \<and> cell_at b p = cell_at b q \<and> related p q \<longrightarrow> p = q)"

definition seen :: "SudokuBoard \<Rightarrow> (nat \<times> nat) set \<Rightarrow> string js_set list \<Rightarrow> string js_set list \<Rightarrow>
    string js_set list \<Rightarrow> bool" where
  "seen b A rs cs sqs \<longleftrightarrow>
     length rs = 9 \<and> length cs = 9 \<and> length sqs = 9 \<and>
     (\<forall>k<9. set (rs ! k) = {v. \<exists>p\<in>A. fst p = k \<and> cell_at b p = Some v}) \<and>
     (\<forall>k<9. set (cs ! k) = {v. \<exists>p\<in>A. snd p = k \<and> cell_at b p = Some v}) \<and>
     (\<forall>k<9. set (sqs ! k) =
        {v. \<exists>p\<in>A. getSquareIndex (fst p) (snd p) = k \<and> cell_at b p = Some v})"

text \<open>
  The invariant of the solver's fields: the board is 9x9, the three families of sets hold
  exactly the symbols of the board's rows, columns and squares, and the board satisfies
  the uniqueness invariant. \<open>struct_inv\<close> is the part of it about shapes only.
\<close>

definition struct_inv :: "SudokuSolver \<Rightarrow> bool" where
  "struct_inv s \<longleftrightarrow>
     wf_board (board s) \<and> length (rows s) = 9 \<and> length (cols s) = 9 \<and> length (squares s) = 9"

definition solver_inv :: "SudokuSolver \<Rightarrow> bool" where
  "solver_inv s \<longleftrightarrow>
     wf_board (board s) \<and> seen (board s) (set all_cells) (rows s) (cols s) (squares s) \<and>
     conflict_free_on (set all_cells) (board s)"

text \<open>A board without empty cells, and a board that keeps every filled cell of another.\<close>

definition full :: "SudokuBoard \<Rightarrow> bool" where
  "full b \<longleftrightarrow> (\<forall>p\<in>set all_cells. cell_at b p \<noteq> None)"

definition extends :: "SudokuBoard \<Rightarrow> SudokuBoard \<Rightarrow> bool" where
  "extends b b' \<longleftrightarrow> (\<forall>p\<in>set all_cells. cell_at b p \<noteq> None \<longrightarrow> cell_at b' p = cell_at b p)"

text \<open>
  For autoSolveCells: the cell of a board with provenance given as a pair; candidate sets
  that list no symbol already present in a related cell; a board that keeps every filled
  cell of \<open>g\<close> and differs from \<open>g\<close> only in cells that now hold a symbol tagged
  \<open>system\<close>; and the invariant of the closure variables built from these.
\<close>

definition scell :: "SudokuBoardWithSource \<Rightarrow> nat \<times> nat \<Rightarrow> SudokuCell" where
  "scell b p = b ! fst p ! snd p"

definition cands_sound :: "SudokuBoard \<Rightarrow> (nat \<times> nat \<rightharpoonup> string js_set) \<Rightarrow> bool" where
  "cands_sound b cm \<longleftrightarrow>
     (\<forall>p\<in>set all_cells. \<forall>cc. cm p = Some cc \<longrightarrow>
        (\<forall>v\<in>set cc. \<forall>q\<in>set all_cells. related p q \<longrightarrow> cell_at b q \<noteq> Some v))"

definition frame :: "SudokuBoardWithSource \<Rightarrow> SudokuBoardWithSource \<Rightarrow> bool" where
  "frame g b \<longleftrightarrow>
     (\<forall>p\<in>set all_cells.
        (cell_value (scell g p) \<noteq> None \<longrightarrow> scell b p = scell g p) \<and>
        (scell b p \<noteq> scell g p \<longrightarrow>
           cell_value (scell b p) \<noteq> None \<and> cell_source (scell b p) = Some System))"

definition auto_inv :: "SudokuBoardWithSource \<Rightarrow> auto_state \<Rightarrow> bool" where
  "auto_inv g st \<longleftrightarrow>
     wf_board (newBoard st) \<and>
     seen (boardWithSourceToSimple (newBoard st)) (set all_cells)
       (rows (solver st)) (cols (solver st)) (squares (solver st)) \<and>
     conflict_free_on (set all_cells) (boardWithSourceToSimple (newBoard st)) \<and>
     cands_sound (boardWithSourceToSimple (newBoard st)) (candidates st) \<and>
     frame g (newBoard st)"

text \<open>The cells whose candidates \<open>updateCell\<close> prunes: the row, the column and the square.\<close>

definition pruned_cells :: "nat \<Rightarrow> nat \<Rightarrow> (nat \<times> nat) list" where
  "pruned_cells row col =
     concat (map (\<lambda>i. [(row, i), (i, col)]) [0..<9]) @
     square_cells (getSquareIndex row col)"

text \<open>No cell of \<open>newBoard\<close> is empty.\<close>

definition all_filled :: "auto_state \<Rightarrow> bool" where
  "all_filled st \<longleftrightarrow> (\<forall>p\<in>set all_cells. cell_value (scell (newBoard st) p) \<noteq> None)"

text \<open>The number of valid numbers of a cell, as \<open>findBestCell\<close> computes it.\<close>

definition nopt :: "SudokuSolver \<Rightarrow> nat \<times> nat \<Rightarrow> nat" where
  "nopt s p = length (getValidNumbers s (fst p) (snd p))"

text \<open>
  The bodies of the loops of the four passes of a round, named: the step at one cell of
  the naked singles, the step at one row, column or square and one symbol of the hidden
  singles, and the two halves of a step of box/line reduction (the rows and the columns in
  which a symbol is still possible inside a square, and the pruning of that row or column
  outside the square).
\<close>

definition naked_step :: "nat \<times> nat \<Rightarrow> auto_state \<Rightarrow> auto_state" where
  "naked_step = (\<lambda>(i, j) st.
             if cell_value (newBoard st ! i ! j) = None then
               (case candidates st (i, j) of
                  Some cellCandidates \<Rightarrow>
                    if length cellCandidates = 1 then updateCell st i j (cellCandidates ! 0)
                    else st
                | None \<Rightarrow> st)
             else st)"

definition hrow_step :: "nat \<times> string \<Rightarrow> auto_state \<Rightarrow> auto_state" where
  "hrow_step = (\<lambda>(row, num) st.
             if num \<in> set (rows (solver st) ! row) then st
             else (let possibleCols = filter (\<lambda>col. has_candidate st row col num) [0..<9] in
                   if length possibleCols = 1 then updateCell st row (possibleCols ! 0) num
                   else st))"

definition hcol_step :: "nat \<times> string \<Rightarrow> auto_state \<Rightarrow> auto_state" where
  "hcol_step = (\<lambda>(col, num) st.
             if num \<in> set (cols (solver st) ! col) then st
             else (let possibleRows = filter (\<lambda>row. has_candidate st row col num) [0..<9] in
                   if length possibleRows = 1 then updateCell st (possibleRows ! 0) col num
                   else st))"

definition hsq_step :: "nat \<times> string \<Rightarrow> auto_state \<Rightarrow> auto_state" where
  "hsq_step = (\<lambda>(squareIndex, num) st.
             if num \<in> set (squares (solver st) ! squareIndex) then st
             else (let startRow = (squareIndex div 3) * 3;
                       startCol = (squareIndex mod 3) * 3;
                       possibleCells =
                         filter (\<lambda>(r, c). has_candidate st r c num)
                           (List.product [startRow..<startRow + 3] [startCol..<startCol + 3])
                   in if length possibleCells = 1
                      then updateCell st (fst (possibleCells ! 0)) (snd (possibleCells ! 0)) num
                      else st))"

definition prune_row :: "nat \<Rightarrow> nat \<Rightarrow> string \<Rightarrow> auto_state \<Rightarrow> auto_state" where
  "prune_row startCol r num st =
     fold (\<lambda>col st. if startCol \<le> col \<and> col < startCol + 3 then st
                      else removeFlagged st r col num) [0..<9] st"

definition prune_col :: "nat \<Rightarrow> nat \<Rightarrow> string \<Rightarrow> auto_state \<Rightarrow> auto_state" where
  "prune_col startRow c num st =
     fold (\<lambda>row st. if startRow \<le> row \<and> row < startRow + 3 then st
                      else removeFlagged st row c num) [0..<9] st"

definition rows_with :: "auto_state \<Rightarrow> nat \<Rightarrow> string \<Rightarrow> nat js_set" where
  "rows_with st k num = new_Set (map fst (filter (\<lambda>(r, c). has_candidate st r c num) (square_cells k)))"

definition cols_with :: "auto_state \<Rightarrow> nat \<Rightarrow> string \<Rightarrow> nat js_set" where
  "cols_with st k num = new_Set (map snd (filter (\<lambda>(r, c). has_candidate st r c num) (square_cells k)))"

definition box_rows :: "nat \<Rightarrow> string \<Rightarrow> auto_state \<Rightarrow> auto_state" where
  "box_rows k num st =
     (if length (rows_with st k num) = 1 then prune_row ((k mod 3) * 3) (rows_with st k num ! 0) num st
      else st)"

definition box_cols :: "nat \<Rightarrow> string \<Rightarrow> auto_state \<Rightarrow> auto_state" where
  "box_cols k num st =
     (if length (cols_with st k num) = 1 then prune_col ((k div 3) * 3) (cols_with st k num ! 0) num st
      else st)"

text \<open>
  A completion of a board: a 9x9 board without empty cell, every cell holding one of the
  nine symbols, that satisfies the uniqueness invariant and agrees with the board on the
  cells that the board has filled.
\<close>

definition complete :: "SudokuBoard \<Rightarrow> bool" where
  "complete S \<longleftrightarrow>
     wf_board S \<and> (\<forall>p\<in>set all_cells. \<exists>d\<in>set digits. cell_at S p = Some d) \<and>
     conflict_free_on (set all_cells) S"

definition completion_of :: "SudokuBoard \<Rightarrow> SudokuBoard \<Rightarrow> bool" where
  "completion_of S b \<longleftrightarrow>
     wf_board S \<and> unique_inv S \<and>
     (\<forall>p\<in>set all_cells.
        (\<exists>d\<in>set digits. cell_at S p = Some d) \<and>
        (cell_at b p \<noteq> None \<longrightarrow> cell_at S p = cell_at b p))"

definition agrees :: "SudokuBoard \<Rightarrow> SudokuBoard \<Rightarrow> bool" where
  "agrees b S \<longleftrightarrow> (\<forall>p\<in>set all_cells. \<forall>v. cell_at b p = Some v \<longrightarrow> cell_at S p = Some v)"

text \<open>
  A state of autoSolveCells is compatible with a completion when every filled cell holds
  the symbol of the completion and the candidates of every empty cell are symbols, without
  repetition, among them the symbol of the completion. A unit is a row, a column or a
  square, as a list of cells.
\<close>

definition sol_inv :: "SudokuBoard \<Rightarrow> auto_state \<Rightarrow> bool" where
  "sol_inv S st \<longleftrightarrow>
     (\<forall>p\<in>set all_cells.
        (\<forall>v. cell_value (scell (newBoard st) p) = Some v \<longrightarrow> cell_at S p = Some v) \<and>
        (cell_value (scell (newBoard st) p) = None \<longrightarrow>
           (\<exists>cc. candidates st p = Some cc \<and> distinct cc \<and> set cc \<subseteq> set digits \<and>
                 (\<forall>d. cell_at S p = Some d \<longrightarrow> d \<in> set cc))))"

definition is_unit :: "(nat \<times> nat) list \<Rightarrow> bool" where
  "is_unit us \<longleftrightarrow>
     distinct us \<and> length us = 9 \<and> set us \<subseteq> set all_cells \<and>
     (\<forall>p\<in>set us. \<forall>q\<in>set us. related p q)"

definition good :: "SudokuBoardWithSource \<Rightarrow> SudokuBoard \<Rightarrow> auto_state \<Rightarrow> bool" where
  "good g S st \<longleftrightarrow> complete S \<and> auto_inv g st \<and> sol_inv S st"

text \<open>
  A state is quiet when its change flag is down and no step of a round changes it. A state
  is above another one when both have the same board and, at every empty cell, its
  candidates include the other's.
\<close>

definition quiet :: "auto_state \<Rightarrow> bool" where
  "quiet st \<longleftrightarrow>
     \<not> iterationChanges st \<and>
     (\<forall>x\<in>set all_cells. naked_step x st = st) \<and>
     (\<forall>x\<in>set (List.product [0..<9] digits).
        hrow_step x st = st \<and> hcol_step x st = st \<and> hsq_step x st = st \<and>
        boxLineStep (fst x) (snd x) st = st)"

definition above :: "auto_state \<Rightarrow> auto_state \<Rightarrow> bool" where
  "above sf st \<longleftrightarrow>
     newBoard st = newBoard sf \<and>
     (\<forall>p\<in>set all_cells. cell_value (scell (newBoard sf) p) = None \<longrightarrow>
        (\<exists>cc cc'. candidates sf p = Some cc \<and> candidates st p = Some cc' \<and>
                  set cc \<subseteq> set cc' \<and> distinct cc'))"

definition paired :: "SudokuBoardWithSource \<Rightarrow> SudokuBoard \<Rightarrow> auto_state \<Rightarrow> auto_state \<Rightarrow> bool" where
  "paired g S sf st \<longleftrightarrow>
     quiet sf \<and> good g S sf \<and> auto_inv (newBoard sf) st \<and> above sf st"

text \<open>
  What the evaluation of a run observes of a state of autoSolveCells: the two change
  flags, the value of one cell, and the value of the same cell after one more round.
\<close>

definition probe :: "nat \<Rightarrow> nat \<Rightarrow> auto_state \<Rightarrow> bool \<times> bool \<times> string option \<times> string option" where
  "probe i j st =
     (iterationChanges st, hasChanges st, cell_value (newBoard st ! i ! j),
      cell_value (newBoard (propagation_round (st\<lparr>iterationChanges := False\<rparr>)) ! i ! j))"

section \<open>Concrete boards\<close>

definition empty_cell :: SudokuCell where
  "empty_cell = \<lparr>cell_value = None, cell_source = None\<rparr>"

definition user_cell :: "string \<Rightarrow> SudokuCell" where
  "user_cell v = \<lparr>cell_value = Some v, cell_source = Some User\<rparr>"

text \<open>A first row of nine 5s above eight empty rows.\<close>

definition two_fives :: SudokuBoardWithSource where
  "two_fives = replicate 9 (user_cell ''5'') # replicate 8 (replicate 9 empty_cell)"

text \<open>Boards written as nine strings, a dot for an empty cell.\<close>

definition cell_of_char :: "char \<Rightarrow> string option" where
  "cell_of_char c = (if c = CHR ''.'' then None else Some [c])"

definition board_of :: "string list \<Rightarrow> SudokuBoard" where
  "board_of rs = map (map cell_of_char) rs"

text \<open>
  Two valid boards that no completion exists for: cells (4,4) and (5,1) have no valid
  number. In the first, cell (0,0) is empty too and has the single valid number 3; in the
  second, cell (8,8) is empty and has the single valid number 1.
\<close>

definition single_then_dead :: SudokuBoard where
  "single_then_dead = board_of
     [''.61728495'',
      ''892354167'',
      ''547916823'',
      ''758243619'',
      ''6198.5734'',
      ''4.3179258'',
      ''184592376'',
      ''976431582'',
      ''235687941'']"

definition dead_then_single :: SudokuBoard where
  "dead_then_single = board_of
     [''361728495'',
      ''892354167'',
      ''547916823'',
      ''758243619'',
      ''6198.5734'',
      ''4.3179258'',
      ''184592376'',
      ''976431582'',
      ''23568794.'']"

text \<open>A board whose first row holds 3 twice, with two empty cells, and its completion.\<close>

definition dup_board :: SudokuBoard where
  "dup_board = board_of
     [''334678912'',
      ''672195348'',
      ''198342567'',
      ''859761423'',
      ''426853791'',
      ''713924856'',
      ''961537284'',
      ''287419635'',
      ''3452861..'']"

definition dup_solved :: SudokuBoard where
  "dup_solved = board_of
     [''334678912'',
      ''672195348'',
      ''198342567'',
      ''859761423'',
      ''426853791'',
      ''713924856'',
      ''961537284'',
      ''287419635'',
      ''345286179'']"

text \<open>A valid board with two empty cells, and its completion.\<close>

definition valid_two_empty :: SudokuBoard where
  "valid_two_empty = board_of
     [''534678912'',
      ''672195348'',
      ''198342567'',
      ''859761423'',
      ''426853791'',
      ''713924856'',
      ''961537284'',
      ''287419635'',
      ''3452861..'']"

definition valid_solved :: SudokuBoard where
  "valid_solved = board_of
     [''534678912'',
      ''672195348'',
      ''198342567'',
      ''859761423'',
      ''426853791'',
      ''713924856'',
      ''961537284'',
      ''287419635'',
      ''345286179'']"

text \<open>Boards with provenance written as nine strings of symbols and nine strings of tags
  (\<open>u\<close> for user, \<open>s\<close> for system, a dot for none).\<close>

definition tag_of_char :: "char \<Rightarrow> provenance option" where
  "tag_of_char t = (if t = CHR ''s'' then Some System else if t = CHR ''u'' then Some User else None)"

definition tagged_board_of :: "string list \<Rightarrow> string list \<Rightarrow> SudokuBoardWithSource" where
  "tagged_board_of vs ts =
     map (\<lambda>(v, t). map (\<lambda>(c, x). \<lparr>cell_value = cell_of_char c, cell_source = tag_of_char x\<rparr>)
                       (zip v t)) (zip vs ts)"

text \<open>
  A valid board without completion (cell (5,1) has no valid number), the board that
  autoSolveCells returns for it, and the board that a second call returns.
\<close>

definition stuck_board :: SudokuBoardWithSource where
  "stuck_board = tagged_board_of
     [''361728495'',
      ''892354167'',
      ''547916823'',
      ''.58243.19'',
      ''.19..5.34'',
      ''4.3179258'',
      ''184592376'',
      ''976431582'',
      ''235..7941'']
     [''uuuuuuuuu'',
      ''uuuuuuuuu'',
      ''uuuuuuuuu'',
      ''.uuuuu.uu'',
      ''.uu..u.uu'',
      ''u.uuuuuuu'',
      ''uuuuuuuuu'',
      ''uuuuuuuuu'',
      ''uuu..uuuu'']"

definition stuck_once :: SudokuBoardWithSource where
  "stuck_once = tagged_board_of
     [''361728495'',
      ''892354167'',
      ''547916823'',
      ''758243619'',
      ''.19..5734'',
      ''4.3179258'',
      ''184592376'',
      ''976431582'',
      ''235..7941'']
     [''uuuuuuuuu'',
      ''uuuuuuuuu'',
      ''uuuuuuuuu'',
      ''suuuuusuu'',
      ''.uu..usuu'',
      ''u.uuuuuuu'',
      ''uuuuuuuuu'',
      ''uuuuuuuuu'',
      ''uuu..uuuu'']"

definition stuck_twice :: SudokuBoardWithSource where
  "stuck_twice = tagged_board_of
     [''361728495'',
      ''892354167'',
      ''547916823'',
      ''758243619'',
      ''6198.5734'',
      ''4.3179258'',
      ''184592376'',
      ''976431582'',
      ''235687941'']
     [''uuuuuuuuu'',
      ''uuuuuuuuu'',
      ''uuuuuuuuu'',
      ''suuuuusuu'',
      ''suus.usuu'',
      ''u.uuuuuuu'',
      ''uuuuuuuuu'',
      ''uuuuuuuuu'',
      ''uuussuuuu'']"

text \<open>A valid board with two empty cells, tagged, and what autoSolveCells returns for it.\<close>

definition easy_board :: SudokuBoardWithSource where
  "easy_board = tagged_board_of
     [''534678912'',
      ''672195348'',
      ''198342567'',
      ''859761423'',
      ''426853791'',
      ''713924856'',
      ''961537284'',
      ''287419635'',
      ''3452861..'']
     [''uuuuuuuuu'',
      ''uuuuuuuuu'',
      ''uuuuuuuuu'',
      ''uuuuuuuuu'',
      ''uuuuuuuuu'',
      ''uuuuuuuuu'',
      ''uuuuuuuuu'',
      ''uuuuuuuuu'',
      ''uuuuuuu..'']"

definition easy_done :: SudokuBoardWithSource where
  "easy_done = tagged_board_of
     [''534678912'',
      ''672195348'',
      ''198342567'',
      ''859761423'',
      ''426853791'',
      ''713924856'',
      ''961537284'',
      ''287419635'',
      ''345286179'']
     [''uuuuuuuuu'',
      ''uuuuuuuuu'',
      ''uuuuuuuuu'',
      ''uuuuuuuuu'',
      ''uuuuuuuuu'',
      ''uuuuuuuuu'',
      ''uuuuuuuuu'',
      ''uuuuuuuuu'',
      ''uuuuuuuss'']"

definition sevens :: SudokuBoard where
  "sevens = replicate 9 (replicate 9 (Some ''7''))"

text \<open>
  A board with a completion (\<open>valid_solved\<close>) on which autoSolveCells fills two cells and
  leaves four empty: cells (3,5), (3,8), (4,5) and (4,8) can hold 1 and 3 in two ways. The
  second board is what autoSolveCells returns for it.
\<close>

definition open_board :: SudokuBoardWithSource where
  "open_board = tagged_board_of
     [''534678912'',
      ''672195348'',
      ''198342567'',
      ''85976.42.'',
      ''42685.79.'',
      ''713924856'',
      ''961537284'',
      ''287419635'',
      ''3452861..'']
     [''uuuuuuuuu'',
      ''uuuuuuuuu'',
      ''uuuuuuuuu'',
      ''uuuuu.uu.'',
      ''uuuuu.uu.'',
      ''uuuuuuuuu'',
      ''uuuuuuuuu'',
      ''uuuuuuuuu'',
      ''uuuuuuu..'']"

definition open_done :: SudokuBoardWithSource where
  "open_done = tagged_board_of
     [''534678912'',
      ''672195348'',
      ''198342567'',
      ''85976.42.'',
      ''42685.79.'',
      ''713924856'',
      ''961537284'',
      ''287419635'',
      ''345286179'']
     [''uuuuuuuuu'',
      ''uuuuuuuuu'',
      ''uuuuuuuuu'',
      ''uuuuu.uu.'',
      ''uuuuu.uu.'',
      ''uuuuuuuuu'',
      ''uuuuuuuuu'',
      ''uuuuuuuuu'',
      ''uuuuuuuss'']"

text \<open>
  A board with 43 empty cells and its completion. The tenth round of autoSolveCells on it
  still changes the state, and an eleventh round would fill cell (6,7).
\<close>

definition cap_board :: SudokuBoardWithSource where
  "cap_board = tagged_board_of
     [''..5....19'',
      ''.938...56'',
      ''6....978.'',
      ''.491.6..5'',
      ''..14.3.67'',
      ''3.6.8.941'',
      ''5..9.81..'',
      ''9....15..'',
      ''...7..69.'']
     [''..u....uu'',
      ''.uuu...uu'',
      ''u....uuu.'',
      ''.uuu.u..u'',
      ''..uu.u.uu'',
      ''u.u.u.uuu'',
      ''u..u.uu..'',
      ''u....uu..'',
      ''...u..uu.'']"

definition cap_solved :: SudokuBoard where
  "cap_solved = board_of
     [''785362419'',
      ''493817256'',
      ''612549783'',
      ''849176325'',
      ''251493867'',
      ''376285941'',
      ''567928134'',
      ''924631578'',
      ''138754692'']"

text \<open>
  The board \<open>easy_board\<close> with its last cell, which is empty, tagged \<open>system\<close>. The type
  of the source, \<open>{ value: string | null; source: 'user' | 'system' | null }\<close>, admits
  such a cell.
\<close>

definition system_empty_board :: SudokuBoardWithSource where
  "system_empty_board = tagged_board_of
     [''534678912'',
      ''672195348'',
      ''198342567'',
      ''859761423'',
      ''426853791'',
      ''713924856'',
      ''961537284'',
      ''287419635'',
      ''3452861..'']
     [''uuuuuuuuu'',
      ''uuuuuuuuu'',
      ''uuuuuuuuu'',
      ''uuuuuuuuu'',
      ''uuuuuuuuu'',
      ''uuuuuuuuu'',
      ''uuuuuuuuu'',
      ''uuuuuuuuu'',
      ''uuuuuuu.s'']"

section \<open>The uniqueness invariant, cell by cell\<close>

lemma set_all_cells: "set all_cells = {0..<9} \<times> {0..<9}"
  by (simp add: all_cells_def)

lemma distinct_all_cells: "distinct all_cells"
  by (simp add: all_cells_def distinct_product)

lemma distinct_filled_map:
  assumes "distinct xs"
  shows "distinct (filled (map f xs)) \<longleftrightarrow>
         (\<forall>x\<in>set xs. \<forall>y\<in>set xs. f x \<noteq> None \<and> f x = f y \<longrightarrow> x = y)"
proof -
  have eq: "filled (map f xs) = map (\<lambda>x. the (f x)) (filter (\<lambda>x. f x \<noteq> None) xs)"
    by (simp add: filled_def filter_map comp_def)
  have d: "distinct (filter (\<lambda>x. f x \<noteq> None) xs)" using assms by simp
  show ?thesis
    unfolding eq distinct_map inj_on_def using d
    by (auto, metis option.sel)
qed

lemma distinct_filledI:
  assumes "distinct xs"
    and "\<And>x y. x \<in> set xs \<Longrightarrow> y \<in> set xs \<Longrightarrow> f x \<noteq> None \<Longrightarrow> f x = f y \<Longrightarrow> x = y"
  shows "distinct (filled (map f xs))"
  unfolding distinct_filled_map [OF assms(1)] using assms(2) by blast

lemma div3_iff: "(a * 3 \<le> r \<and> r < a * 3 + 3) \<longleftrightarrow> r div 3 = (a::nat)"
proof
  assume "a * 3 \<le> r \<and> r < a * 3 + 3"
  then show "r div 3 = a"
    by (intro div_nat_eqI) (auto simp: mult.commute)
next
  assume "r div 3 = a"
  then show "a * 3 \<le> r \<and> r < a * 3 + 3"
    using div_times_less_eq_dividend [of r 3] dividend_less_times_div [of 3 r]
    by (auto simp: mult.commute)
qed

lemma square_index_lt: "r < 9 \<Longrightarrow> c < 9 \<Longrightarrow> getSquareIndex r c < 9"
proof -
  assume "r < 9" "c < 9"
  then have "r div 3 < 3" "c div 3 < 3" by (simp_all add: less_mult_imp_div_less)
  then show ?thesis unfolding getSquareIndex_def by linarith
qed

lemma square_range_iff:
  assumes "k < (9::nat)"
  shows "(k div 3 * 3 \<le> r \<and> r < k div 3 * 3 + 3 \<and> k mod 3 * 3 \<le> c \<and> c < k mod 3 * 3 + 3)
          = (r < 9 \<and> c < 9 \<and> r div 3 * 3 + c div 3 = k)"
proof -
  have k3: "k div 3 < 3" using assms by (simp add: less_mult_imp_div_less)
  have "(r < 9 \<and> c < 9 \<and> r div 3 * 3 + c div 3 = k) \<longleftrightarrow> (r div 3 = k div 3 \<and> c div 3 = k mod 3)"
  proof
    assume a: "r < 9 \<and> c < 9 \<and> r div 3 * 3 + c div 3 = k"
    then have "c div 3 < 3" by (simp add: less_mult_imp_div_less)
    with a have "k div 3 = r div 3" "k mod 3 = c div 3" by auto
    then show "r div 3 = k div 3 \<and> c div 3 = k mod 3" by simp
  next
    assume a: "r div 3 = k div 3 \<and> c div 3 = k mod 3"
    then have "r div 3 < 3" "c div 3 < 3" using k3 by simp_all
    then have "r < 9" "c < 9" by (simp_all add: div_less_iff_less_mult)
    moreover have "r div 3 * 3 + c div 3 = k" using a by simp
    ultimately show "r < 9 \<and> c < 9 \<and> r div 3 * 3 + c div 3 = k" by simp
  qed
  then show ?thesis
    using div3_iff [of "k div 3" r] div3_iff [of "k mod 3" c] by blast
qed

lemma set_square_cells:
  assumes "k < 9"
  shows "set (square_cells k) = {(r, c). r < 9 \<and> c < 9 \<and> getSquareIndex r c = k}"
proof -
  have "\<And>r c. ((r, c) \<in> set (square_cells k)) = (r < 9 \<and> c < 9 \<and> getSquareIndex r c = k)"
    unfolding square_cells_def getSquareIndex_def
    using square_range_iff [OF assms] by simp
  then show ?thesis by auto
qed

lemma in_square_cells: "r < 9 \<Longrightarrow> c < 9 \<Longrightarrow> (r, c) \<in> set (square_cells (getSquareIndex r c))"
  using set_square_cells [OF square_index_lt] by auto

lemma distinct_square_cells: "distinct (square_cells k)"
  by (simp add: square_cells_def distinct_product)

lemma conflict_free_onD:
  "conflict_free_on A b \<Longrightarrow> p \<in> A \<Longrightarrow> q \<in> A \<Longrightarrow> cell_at b p = Some v \<Longrightarrow>
   cell_at b q = Some v \<Longrightarrow> related p q \<Longrightarrow> p = q"
  unfolding conflict_free_on_def by (metis option.distinct(1))

lemma unique_inv_iff: "unique_inv b \<longleftrightarrow> conflict_free_on (set all_cells) b"
proof
  assume u: "unique_inv b"
  have rows: "\<And>k. k < 9 \<Longrightarrow> distinct (filled (map (\<lambda>j. b ! k ! j) [0..<9]))"
    and cols: "\<And>k. k < 9 \<Longrightarrow> distinct (filled (map (\<lambda>i. b ! i ! k) [0..<9]))"
    and sqs: "\<And>k. k < 9 \<Longrightarrow> distinct (filled (map (\<lambda>(r, c). b ! r ! c) (square_cells k)))"
    using u by (simp_all add: unique_inv_def list_all_iff row_of_def col_of_def square_of_def)
  show "conflict_free_on (set all_cells) b"
    unfolding conflict_free_on_def
  proof (intro ballI impI)
    fix p q assume p: "p \<in> set all_cells" and q: "q \<in> set all_cells"
      and h: "cell_at b p \<noteq> None \<and> cell_at b p = cell_at b q \<and> related p q"
    obtain i j where pij: "p = (i, j)" by (cases p)
    obtain i' j' where qij: "q = (i', j')" by (cases q)
    have b: "i < 9" "j < 9" "i' < 9" "j' < 9" using p q pij qij by (auto simp: set_all_cells)
    have ne: "b ! i ! j \<noteq> None" and eq: "b ! i ! j = b ! i' ! j'"
      using h pij qij by (auto simp: cell_at_def)
    from h pij qij consider "i = i'" | "j = j'" | "getSquareIndex i j = getSquareIndex i' j'"
      by (auto simp: related_def)
    then show "p = q"
    proof cases
      case 1
      have "j = j'"
        using rows [OF b(1)] b ne eq 1
        by (simp add: distinct_filled_map)
      then show ?thesis using 1 pij qij by simp
    next
      case 2
      have "i = i'"
        using cols [OF b(2)] b ne eq 2
        by (simp add: distinct_filled_map)
      then show ?thesis using 2 pij qij by simp
    next
      case 3
      let ?k = "getSquareIndex i j"
      have k: "?k < 9" using b by (simp add: square_index_lt)
      have "(i, j) \<in> set (square_cells ?k)"
        by (rule in_square_cells [OF b(1) b(2)])
      moreover have "(i', j') \<in> set (square_cells ?k)"
        using in_square_cells [OF b(3) b(4)] 3 by simp
      ultimately have "(i, j) = (i', j')"
        using sqs [OF k] ne eq
        unfolding distinct_filled_map [OF distinct_square_cells] by fastforce
      then show ?thesis using pij qij by simp
    qed
  qed
next
  assume c: "conflict_free_on (set all_cells) b"
  have cf: "\<And>i j i' j'. i < 9 \<Longrightarrow> j < 9 \<Longrightarrow> i' < 9 \<Longrightarrow> j' < 9 \<Longrightarrow> b ! i ! j \<noteq> None \<Longrightarrow>
      b ! i ! j = b ! i' ! j' \<Longrightarrow> related (i, j) (i', j') \<Longrightarrow> i = i' \<and> j = j'"
  proof -
    fix i j i' j' :: nat
    assume "i < 9" "j < 9" "i' < 9" "j' < 9" "b ! i ! j \<noteq> None" "b ! i ! j = b ! i' ! j'"
      "related (i, j) (i', j')"
    moreover have "(i, j) \<in> set all_cells" "(i', j') \<in> set all_cells"
      using calculation by (simp_all add: set_all_cells)
    ultimately have "(i, j) = (i', j')"
      using c unfolding conflict_free_on_def cell_at_def
      by (metis fst_conv snd_conv)
    then show "i = i' \<and> j = j'" by simp
  qed
  have "distinct (filled (row_of b k))" if "k < 9" for k
    unfolding row_of_def
  proof (rule distinct_filledI)
    fix x y assume "x \<in> set [0..<9]" "y \<in> set [0..<9]" "b ! k ! x \<noteq> None" "b ! k ! x = b ! k ! y"
    then show "x = y" using cf [of k x k y] that by (simp add: related_def)
  qed simp
  moreover have "distinct (filled (col_of b k))" if "k < 9" for k
    unfolding col_of_def
  proof (rule distinct_filledI)
    fix x y assume "x \<in> set [0..<9]" "y \<in> set [0..<9]" "b ! x ! k \<noteq> None" "b ! x ! k = b ! y ! k"
    then show "x = y" using cf [of x k y k] that by (simp add: related_def)
  qed simp
  moreover have "distinct (filled (square_of b k))" if "k < 9" for k
    unfolding square_of_def
  proof (rule distinct_filledI [OF distinct_square_cells])
    fix p q assume pq: "p \<in> set (square_cells k)" "q \<in> set (square_cells k)"
      and v: "(case p of (r, c) \<Rightarrow> b ! r ! c) \<noteq> None"
        "(case p of (r, c) \<Rightarrow> b ! r ! c) = (case q of (r, c) \<Rightarrow> b ! r ! c)"
    obtain i j where pij: "p = (i, j)" by (cases p)
    obtain i' j' where qij: "q = (i', j')" by (cases q)
    have "i < 9" "j < 9" "i' < 9" "j' < 9" "getSquareIndex i j = k" "getSquareIndex i' j' = k"
      using pq pij qij by (simp_all add: set_square_cells [OF that])
    then show "p = q"
      using cf [of i j i' j'] v pij qij by (simp add: related_def)
  qed
  ultimately show "unique_inv b"
    by (simp add: unique_inv_def list_all_iff)
qed


section \<open>isValidBoard\<close>

lemma set_set_add [simp]: "set (set_add x s) = insert x (set s)"
  by (auto simp: set_add_def)

lemma set_set_delete [simp]: "set (set_delete x s) = set s - {x}"
  by (auto simp: set_delete_def)

lemma conflict_free_on_mono: "conflict_free_on B b \<Longrightarrow> A \<subseteq> B \<Longrightarrow> conflict_free_on A b"
  unfolding conflict_free_on_def by blast

lemma related_sym: "related p q \<Longrightarrow> related q p"
  unfolding related_def by auto

lemma cf_insert_None:
  assumes "conflict_free_on A b" "cell_at b p = None"
  shows "conflict_free_on (insert p A) b"
  using assms unfolding conflict_free_on_def by auto

lemma cf_insert_Some:
  assumes "conflict_free_on A b" "cell_at b p = Some num"
    and "\<forall>q\<in>A. related p q \<longrightarrow> cell_at b q \<noteq> Some num"
  shows "conflict_free_on (insert p A) b"
  unfolding conflict_free_on_def
proof (intro ballI impI)
  fix x y assume x: "x \<in> insert p A" and y: "y \<in> insert p A"
    and h: "cell_at b x \<noteq> None \<and> cell_at b x = cell_at b y \<and> related x y"
  show "x = y"
  proof (cases "x = p")
    case True
    show ?thesis
    proof (cases "y = p")
      case True
      with \<open>x = p\<close> show ?thesis by simp
    next
      case False
      then have "y \<in> A" using y by simp
      then show ?thesis using assms(2,3) h True by metis
    qed
  next
    case False
    then have xa: "x \<in> A" using x by simp
    show ?thesis
    proof (cases "y = p")
      case True
      then show ?thesis using assms(2,3) h xa related_sym by metis
    next
      case False
      then have "y \<in> A" using y by simp
      then show ?thesis using assms(1) xa h unfolding conflict_free_on_def by blast
    qed
  qed
qed

lemma seen_insert_None:
  assumes "seen b A rs cs sqs" "cell_at b p = None"
  shows "seen b (insert p A) rs cs sqs"
  using assms unfolding seen_def by auto

lemma seen_insert_Some:
  assumes "seen b A rs cs sqs" "cell_at b (i, j) = Some num" "i < 9" "j < 9"
  shows "seen b (insert (i, j) A) (rs[i := set_add num (rs ! i)]) (cs[j := set_add num (cs ! j)])
           (sqs[getSquareIndex i j := set_add num (sqs ! getSquareIndex i j)])"
proof -
  have k: "getSquareIndex i j < 9" using assms(3,4) by (rule square_index_lt)
  have l: "length rs = 9" "length cs = 9" "length sqs = 9" using assms(1) by (simp_all add: seen_def)
  have r: "\<And>k. k < 9 \<Longrightarrow> set (rs ! k) = {v. \<exists>p\<in>A. fst p = k \<and> cell_at b p = Some v}"
    and c: "\<And>k. k < 9 \<Longrightarrow> set (cs ! k) = {v. \<exists>p\<in>A. snd p = k \<and> cell_at b p = Some v}"
    and q: "\<And>k. k < 9 \<Longrightarrow> set (sqs ! k) =
        {v. \<exists>p\<in>A. getSquareIndex (fst p) (snd p) = k \<and> cell_at b p = Some v}"
    using assms(1) by (simp_all add: seen_def)
  have "set (rs[i := set_add num (rs ! i)] ! k) =
      {v. \<exists>p\<in>insert (i, j) A. fst p = k \<and> cell_at b p = Some v}" if "k < 9" for k
    using r [OF that] l assms(2,3) that by (cases "k = i") auto
  moreover have "set (cs[j := set_add num (cs ! j)] ! k) =
      {v. \<exists>p\<in>insert (i, j) A. snd p = k \<and> cell_at b p = Some v}" if "k < 9" for k
    using c [OF that] l assms(2,4) that by (cases "k = j") auto
  moreover have "set (sqs[getSquareIndex i j := set_add num (sqs ! getSquareIndex i j)] ! k) =
      {v. \<exists>p\<in>insert (i, j) A. getSquareIndex (fst p) (snd p) = k \<and> cell_at b p = Some v}"
    if "k < 9" for k
    using q [OF that] l assms(2) k that by (cases "k = getSquareIndex i j") auto
  ultimately show ?thesis using l by (simp add: seen_def)
qed

lemma seen_conflict:
  assumes "seen b A rs cs sqs" "i < 9" "j < 9"
  shows "(num \<in> set (rs ! i) \<or> num \<in> set (cs ! j) \<or> num \<in> set (sqs ! getSquareIndex i j)) \<longleftrightarrow>
         (\<exists>q\<in>A. related (i, j) q \<and> cell_at b q = Some num)"
proof -
  have k: "getSquareIndex i j < 9" using assms(2,3) by (rule square_index_lt)
  have "set (rs ! i) = {v. \<exists>p\<in>A. fst p = i \<and> cell_at b p = Some v}"
    "set (cs ! j) = {v. \<exists>p\<in>A. snd p = j \<and> cell_at b p = Some v}"
    "set (sqs ! getSquareIndex i j) =
        {v. \<exists>p\<in>A. getSquareIndex (fst p) (snd p) = getSquareIndex i j \<and> cell_at b p = Some v}"
    using assms k by (simp_all add: seen_def)
  then have e: "num \<in> set (rs ! i) \<longleftrightarrow> (\<exists>p\<in>A. fst p = i \<and> cell_at b p = Some num)"
    "num \<in> set (cs ! j) \<longleftrightarrow> (\<exists>p\<in>A. snd p = j \<and> cell_at b p = Some num)"
    "num \<in> set (sqs ! getSquareIndex i j) \<longleftrightarrow>
       (\<exists>p\<in>A. getSquareIndex (fst p) (snd p) = getSquareIndex i j \<and> cell_at b p = Some num)"
    by simp_all
  show ?thesis
  proof
    assume "num \<in> set (rs ! i) \<or> num \<in> set (cs ! j) \<or> num \<in> set (sqs ! getSquareIndex i j)"
    then obtain p where "p \<in> A" "cell_at b p = Some num"
      "fst p = i \<or> snd p = j \<or> getSquareIndex (fst p) (snd p) = getSquareIndex i j"
      unfolding e by blast
    then show "\<exists>q\<in>A. related (i, j) q \<and> cell_at b q = Some num"
      unfolding related_def by (intro bexI [of _ p]) auto
  next
    assume "\<exists>q\<in>A. related (i, j) q \<and> cell_at b q = Some num"
    then obtain q where "q \<in> A" "cell_at b q = Some num"
      "fst q = i \<or> snd q = j \<or> getSquareIndex (fst q) (snd q) = getSquareIndex i j"
      unfolding related_def by auto
    then show "num \<in> set (rs ! i) \<or> num \<in> set (cs ! j) \<or> num \<in> set (sqs ! getSquareIndex i j)"
      unfolding e by blast
  qed
qed

lemma isValidBoard_loop_correct:
  assumes "seen b A rs cs sqs" "conflict_free_on A b" "set rest \<subseteq> set all_cells"
    "distinct rest" "A \<inter> set rest = {}"
  shows "isValidBoard_loop b rest rs cs sqs \<longleftrightarrow> conflict_free_on (A \<union> set rest) b"
  using assms
proof (induction rest arbitrary: A rs cs sqs)
  case Nil
  then show ?case by simp
next
  case (Cons p rest)
  obtain i j where p: "p = (i, j)" by (cases p)
  have ij: "i < 9" "j < 9" using Cons.prems(3) p by (auto simp: set_all_cells)
  have pA: "p \<notin> A" using Cons.prems(5) by auto
  have rest: "set rest \<subseteq> set all_cells" "distinct rest" "insert p A \<inter> set rest = {}"
    using Cons.prems(3,4,5) by auto
  have un: "A \<union> set (p # rest) = insert p A \<union> set rest" by auto
  show ?case
  proof (cases "b ! i ! j")
    case None
    then have n: "cell_at b p = None" by (simp add: cell_at_def p)
    have "isValidBoard_loop b rest rs cs sqs \<longleftrightarrow> conflict_free_on (insert p A \<union> set rest) b"
      by (rule Cons.IH [OF seen_insert_None [OF Cons.prems(1) n]
            cf_insert_None [OF Cons.prems(2) n] rest])
    then show ?thesis using None by (simp add: p un [unfolded p])
  next
    case (Some num)
    then have n: "cell_at b p = Some num" by (simp add: cell_at_def p)
    show ?thesis
    proof (cases "num \<in> set (rs ! i) \<or> num \<in> set (cs ! j) \<or> num \<in> set (sqs ! getSquareIndex i j)")
      case True
      then obtain q where q: "q \<in> A" "related p q" "cell_at b q = Some num"
        using seen_conflict [OF Cons.prems(1) ij] p by blast
      have "q \<noteq> p" using q(1) pA by auto
      then have "\<not> conflict_free_on (A \<union> set (p # rest)) b"
        unfolding conflict_free_on_def using q n by (metis UnCI list.set_intros(1) option.distinct(1))
      then show ?thesis using True Some by (simp add: p getSquareIndex_def)
    next
      case False
      then have nq: "\<forall>q\<in>A. related p q \<longrightarrow> cell_at b q \<noteq> Some num"
        using seen_conflict [OF Cons.prems(1) ij] p by blast
      have "isValidBoard_loop b rest (rs[i := set_add num (rs ! i)]) (cs[j := set_add num (cs ! j)])
              (sqs[getSquareIndex i j := set_add num (sqs ! getSquareIndex i j)]) \<longleftrightarrow>
            conflict_free_on (insert p A \<union> set rest) b"
        by (rule Cons.IH [OF seen_insert_Some [OF Cons.prems(1) n [unfolded p] ij, folded p]
              cf_insert_Some [OF Cons.prems(2) n nq] rest])
      then show ?thesis using False Some by (simp add: p un [unfolded p] getSquareIndex_def)
    qed
  qed
qed

lemma seen_empty: "seen b {} (replicate 9 []) (replicate 9 []) (replicate 9 [])"
  by (simp add: seen_def)

lemma isValidBoard_iff: "isValidBoard b \<longleftrightarrow> unique_inv b"
proof -
  have "conflict_free_on {} b" by (simp add: conflict_free_on_def)
  then have "isValidBoard b \<longleftrightarrow> conflict_free_on ({} \<union> set all_cells) b"
    unfolding isValidBoard_def
    by (intro isValidBoard_loop_correct seen_empty) (simp_all add: distinct_all_cells)
  then show ?thesis by (simp add: unique_inv_iff)
qed

text \<open>
  C5: on a 9x9 board, isValidBoard returns false exactly when some row, some column or
  some 3x3 square holds the same symbol in two of its filled cells. (The board is an
  argument that the function only reads; it returns nothing but the boolean.)
\<close>

theorem isValidBoard_false_iff:
  assumes "wf_board b"
  shows "isValidBoard b = False \<longleftrightarrow>
         (\<exists>k<9. \<not> distinct (filled (row_of b k)) \<or> \<not> distinct (filled (col_of b k)) \<or>
                 \<not> distinct (filled (square_of b k)))"
  unfolding isValidBoard_iff unique_inv_def list_all_iff by auto

theorem isValidBoard_false_iff_witness:
  "wf_board (boardWithSourceToSimple two_fives) \<and>
   (\<exists>k<9. \<not> distinct (filled (row_of (boardWithSourceToSimple two_fives) k)) \<or>
           \<not> distinct (filled (col_of (boardWithSourceToSimple two_fives) k)) \<or>
           \<not> distinct (filled (square_of (boardWithSourceToSimple two_fives) k)))"
proof -
  have w: "wf_board (boardWithSourceToSimple two_fives)" by code_simp
  have "isValidBoard (boardWithSourceToSimple two_fives) = False" by code_simp
  then show ?thesis using isValidBoard_false_iff [OF w] w by blast
qed

section \<open>The iteration cap of autoSolveCells\<close>

lemma rounds_run_le: "rounds_run n st \<le> n"
  by (induction n arbitrary: st) auto

text \<open>
  \<open>rounds_run\<close> counts the rounds of \<open>main_loop\<close>: the loop applies a round that many
  times. When the change flag is still up after the loop, every round allowed by the cap
  has run, and a loop with one more iteration would run one more round on the state that
  the capped loop ends in.
\<close>

lemma main_loop_rounds:
  "main_loop n st =
     ((\<lambda>s. propagation_round (s\<lparr>iterationChanges := False\<rparr>)) ^^ rounds_run n st) st"
proof (induction n arbitrary: st)
  case 0
  then show ?case by simp
next
  case (Suc n)
  define F where "F = (\<lambda>s. propagation_round (s\<lparr>iterationChanges := False\<rparr>))"
  show ?case
  proof (cases "iterationChanges st")
    case False
    then show ?thesis by simp
  next
    case True
    have "main_loop (Suc n) st = main_loop n (F st)" using True by (simp add: F_def)
    also have "\<dots> = (F ^^ rounds_run n (F st)) (F st)" unfolding F_def by (rule Suc.IH)
    also have "\<dots> = (F ^^ Suc (rounds_run n (F st))) st" by (simp only: funpow_Suc_right comp_apply)
    also have "Suc (rounds_run n (F st)) = rounds_run (Suc n) st" using True by (simp add: F_def)
    finally show ?thesis by (simp only: F_def)
  qed
qed

lemma main_loop_flag_rounds: "iterationChanges (main_loop n st) \<Longrightarrow> rounds_run n st = n"
proof (induction n arbitrary: st)
  case 0
  then show ?case by simp
next
  case (Suc n)
  have ic: "iterationChanges st"
  proof (rule ccontr)
    assume "\<not> iterationChanges st"
    then have "main_loop (Suc n) st = st" by simp
    then show False using Suc.prems \<open>\<not> iterationChanges st\<close> by simp
  qed
  then have "iterationChanges (main_loop n (propagation_round (st\<lparr>iterationChanges := False\<rparr>)))"
    using Suc.prems by simp
  then show ?case using Suc.IH ic by simp
qed

lemma main_loop_one_more:
  "iterationChanges (main_loop n st) \<Longrightarrow>
   main_loop (Suc n) st = propagation_round ((main_loop n st)\<lparr>iterationChanges := False\<rparr>)"
proof (induction n arbitrary: st)
  case 0
  then show ?case by simp
next
  case (Suc n)
  let ?s1 = "propagation_round (st\<lparr>iterationChanges := False\<rparr>)"
  have ic: "iterationChanges st"
  proof (rule ccontr)
    assume "\<not> iterationChanges st"
    then have "main_loop (Suc n) st = st" by simp
    then show False using Suc.prems \<open>\<not> iterationChanges st\<close> by simp
  qed
  then have 1: "main_loop (Suc n) st = main_loop n ?s1" by simp
  then have "iterationChanges (main_loop n ?s1)" using Suc.prems by simp
  then have "main_loop (Suc n) ?s1 = propagation_round ((main_loop n ?s1)\<lparr>iterationChanges := False\<rparr>)"
    by (rule Suc.IH)
  moreover have "main_loop (Suc (Suc n)) st = main_loop (Suc n) ?s1" using ic by simp
  ultimately show ?case using 1 by simp
qed

lemma cap_board_completion: "completion_of cap_solved (boardWithSourceToSimple cap_board)"
  by code_simp

text \<open>
  C4: the cap on the number of rounds is not at least the number of empty cells: it is the
  constant 10. On \<open>cap_board\<close>, a board with 43 empty cells that satisfies the uniqueness
  invariant and has the completion \<open>cap_solved\<close>, the loop of autoSolveCells runs its 10
  rounds and stops on the cap with the change flag still up. autoSolveCells returns the
  board of the tenth round, in which cell (6,7) is empty; an eleventh round would fill it
  with 3, the symbol of the completion.
\<close>

theorem round_cap_stops_early:
  "wf_board cap_board \<and> unique_inv (boardWithSourceToSimple cap_board) \<and>
   wf_board cap_solved \<and> no_empty cap_solved \<and> unique_inv cap_solved \<and>
   list_all2 (list_all2 (\<lambda>x y. x = None \<or> x = y)) (boardWithSourceToSimple cap_board) cap_solved \<and>
   count_empty (boardWithSourceToSimple cap_board) = 43 \<and> maxIterations = 10 \<and>
   rounds_run maxIterations (auto_init cap_board) = maxIterations \<and>
   iterationChanges (main_loop maxIterations (auto_init cap_board)) \<and>
   autoSolveCells cap_board = newBoard (main_loop maxIterations (auto_init cap_board)) \<and>
   cell_value (autoSolveCells cap_board ! 6 ! 7) = None \<and>
   cell_value (newBoard (main_loop (Suc maxIterations) (auto_init cap_board)) ! 6 ! 7) = Some ''3'' \<and>
   cap_solved ! 6 ! 7 = Some ''3''"
proof -
  let ?sf = "main_loop maxIterations (auto_init cap_board)"
  have p: "probe 6 7 ?sf = (True, True, None, Some ''3'')" by code_simp
  have ic: "iterationChanges ?sf" and hc: "hasChanges ?sf"
    and c0: "cell_value (newBoard ?sf ! 6 ! 7) = None"
    and c1: "cell_value (newBoard (propagation_round (?sf\<lparr>iterationChanges := False\<rparr>)) ! 6 ! 7) = Some ''3''"
    using p by (simp_all add: probe_def)
  have 1: "wf_board cap_board" by code_simp
  have 2: "unique_inv (boardWithSourceToSimple cap_board)" by code_simp
  have 3: "wf_board cap_solved" by code_simp
  have 4: "no_empty cap_solved" by code_simp
  have 5: "unique_inv cap_solved" by code_simp
  have 6: "list_all2 (list_all2 (\<lambda>x y. x = None \<or> x = y)) (boardWithSourceToSimple cap_board) cap_solved"
    by code_simp
  have 7: "count_empty (boardWithSourceToSimple cap_board) = 43" by code_simp
  have 8: "maxIterations = 10" by (simp add: maxIterations_def)
  have 9: "rounds_run maxIterations (auto_init cap_board) = maxIterations"
    using ic by (rule main_loop_flag_rounds)
  have v: "isValidBoard (boardWithSourceToSimple cap_board)"
    using 1 2 by (simp add: isValidBoard_iff)
  have 10: "autoSolveCells cap_board = newBoard ?sf"
    using v hc by (simp add: autoSolveCells_def Let_def)
  have 11: "cell_value (newBoard (main_loop (Suc maxIterations) (auto_init cap_board)) ! 6 ! 7) = Some ''3''"
    using c1 main_loop_one_more [OF ic] by simp
  have 12: "cap_solved ! 6 ! 7 = Some ''3''" by code_simp
  show ?thesis using 1 2 3 4 5 6 7 8 9 ic 10 c0 11 12 by simp
qed

section \<open>autoSolveCells on an invalid board\<close>

lemma two_fives_invalid: "\<not> isValidBoard (boardWithSourceToSimple two_fives)"
  by code_simp

text \<open>
  C7: when isValidBoard rejects the input, autoSolveCells returns the input board itself:
  no value, no provenance tag and no other part of it is changed.
\<close>

theorem autoSolveCells_invalid_unchanged:
  "\<not> isValidBoard (boardWithSourceToSimple b) \<Longrightarrow> autoSolveCells b = b"
  by (simp add: autoSolveCells_def)

theorem autoSolveCells_invalid_unchanged_witness:
  "\<not> isValidBoard (boardWithSourceToSimple two_fives) \<and> autoSolveCells two_fives = two_fives"
  using autoSolveCells_invalid_unchanged [OF two_fives_invalid] two_fives_invalid by simp

section \<open>applySolutionToBoard\<close>

lemma applySolution_nth:
  assumes "i < length originalBoard" "j < length (originalBoard ! i)"
  shows "applySolutionToBoard originalBoard solution ! i ! j =
     (if cell_value (originalBoard ! i ! j) = None \<and> solution ! i ! j \<noteq> None
      then \<lparr>cell_value = solution ! i ! j, cell_source = Some System\<rparr>
      else originalBoard ! i ! j)"
  using assms by (simp add: applySolutionToBoard_def nth_enumerate_eq)

lemma wf_board_nth: "wf_board b \<Longrightarrow> i < 9 \<Longrightarrow> length (b ! i) = 9"
  by (simp add: wf_board_def list_all_length)

text \<open>
  C10: for 9x9 boards, applySolutionToBoard returns every cell that was non-empty in the
  original board as it was (value and provenance tag), and a cell that differs from the
  original was empty there, is filled in the solution, and carries the solution's symbol
  with the provenance tag system.
\<close>

theorem applySolutionToBoard_frame:
  assumes "wf_board originalBoard" "wf_board solution" "i < 9" "j < 9"
  shows "(cell_value (originalBoard ! i ! j) \<noteq> None \<longrightarrow>
            applySolutionToBoard originalBoard solution ! i ! j = originalBoard ! i ! j) \<and>
         (cell_value (originalBoard ! i ! j) = None \<and> solution ! i ! j \<noteq> None \<longrightarrow>
            applySolutionToBoard originalBoard solution ! i ! j =
              \<lparr>cell_value = solution ! i ! j, cell_source = Some System\<rparr>) \<and>
         (applySolutionToBoard originalBoard solution ! i ! j \<noteq> originalBoard ! i ! j \<longrightarrow>
            cell_value (originalBoard ! i ! j) = None \<and> solution ! i ! j \<noteq> None \<and>
            cell_source (applySolutionToBoard originalBoard solution ! i ! j) = Some System)"
proof -
  have "i < length originalBoard" "j < length (originalBoard ! i)"
    using assms by (simp_all add: wf_board_def wf_board_nth)
  then show ?thesis
    by (simp add: applySolution_nth)
qed

theorem applySolutionToBoard_frame_witness:
  "wf_board two_fives \<and> wf_board sevens \<and>
   applySolutionToBoard two_fives sevens ! 0 ! 0 = two_fives ! 0 ! 0 \<and>
   applySolutionToBoard two_fives sevens ! 1 ! 0 =
     \<lparr>cell_value = Some ''7'', cell_source = Some System\<rparr>"
proof -
  have a: "wf_board two_fives" by code_simp
  have a': "wf_board sevens" by code_simp
  have b: "cell_value (two_fives ! 0 ! 0) \<noteq> None" by code_simp
  have c: "cell_value (two_fives ! 1 ! 0) = None" by code_simp
  have d: "sevens ! 1 ! 0 = Some ''7''" by code_simp
  have n: "(0::nat) < 9" "(1::nat) < 9" by simp_all
  have r1: "applySolutionToBoard two_fives sevens ! 0 ! 0 = two_fives ! 0 ! 0"
    using applySolutionToBoard_frame [OF a a' n(1) n(1)] b by blast
  have r2: "applySolutionToBoard two_fives sevens ! 1 ! 0 =
      \<lparr>cell_value = Some ''7'', cell_source = Some System\<rparr>"
    using applySolutionToBoard_frame [OF a a' n(2) n(1)] c d by (metis option.distinct(1))
  show ?thesis using a a' r1 r2 by blast
qed

section \<open>findBestCell\<close>

lemma findBestCell_loop_0: "findBestCell_loop s cs best 0 = best"
  by (induction cs arbitrary: best) auto

lemma nopt_le_9: "nopt s p \<le> 9"
proof -
  have "length (filter P digits) \<le> length digits" for P :: "string \<Rightarrow> bool"
    by (rule length_filter_le)
  then show ?thesis by (simp add: nopt_def getValidNumbers_def digits_def Let_def)
qed

lemma findBestCell_loop_char:
  assumes "2 \<le> m"
  shows "(findBestCell_loop s cs best m = best \<and>
          (\<forall>p\<in>set cs. cell_at (board s) p = None \<longrightarrow> m \<le> nopt s p)) \<or>
         (\<exists>pre i j post. cs = pre @ (i, j) # post \<and>
            findBestCell_loop s cs best m = Some (i, j, getValidNumbers s i j) \<and>
            board s ! i ! j = None \<and> nopt s (i, j) < m \<and>
            (\<forall>p\<in>set pre. cell_at (board s) p = None \<longrightarrow> nopt s (i, j) < nopt s p \<and> 2 \<le> nopt s p) \<and>
            (nopt s (i, j) = 1 \<or>
             (\<forall>p\<in>set post. cell_at (board s) p = None \<longrightarrow> nopt s (i, j) \<le> nopt s p)))"
  (is "?keep cs best m \<or> ?pick cs best m")
  using assms
proof (induction cs arbitrary: best m)
  case Nil
  then show ?case by simp
next
  case (Cons c cs)
  obtain i j where c: "c = (i, j)" by (cases c)
  let ?n = "nopt s (i, j)"
  let ?t = "Some (i, j, getValidNumbers s i j)"
  have n: "?n = length (getValidNumbers s i j)" by (simp add: nopt_def)
  show ?case
  proof (cases "board s ! i ! j = None \<and> ?n < m")
    case True
    note sel = True
    consider (one) "?n = 1" | (zero) "?n = 0" | (many) "2 \<le> ?n" by linarith
    then show ?thesis
    proof cases
      case one
      then have "findBestCell_loop s (c # cs) best m = ?t"
        using sel by (simp add: c n Let_def)
      then have "?pick (c # cs) best m"
        using sel one c by (intro exI [of _ "[]"] exI [of _ i] exI [of _ j] exI [of _ cs]) simp
      then show ?thesis ..
    next
      case zero
      then have "findBestCell_loop s (c # cs) best m = ?t"
        using sel by (simp add: c n findBestCell_loop_0 Let_def)
      then have "?pick (c # cs) best m"
        using sel zero c by (intro exI [of _ "[]"] exI [of _ i] exI [of _ j] exI [of _ cs]) simp
      then show ?thesis ..
    next
      case many
      then have r: "findBestCell_loop s (c # cs) best m = findBestCell_loop s cs ?t ?n"
        using sel by (simp add: c n Let_def)
      from Cons.IH [OF many, of ?t] show ?thesis
      proof
        assume k: "?keep cs ?t ?n"
        then have "?pick (c # cs) best m"
          using sel c r by (intro exI [of _ "[]"] exI [of _ i] exI [of _ j] exI [of _ cs]) simp
        then show ?thesis ..
      next
        assume "?pick cs ?t ?n"
        then obtain pre i' j' post where q: "cs = pre @ (i', j') # post"
          "findBestCell_loop s cs ?t ?n = Some (i', j', getValidNumbers s i' j')"
          "board s ! i' ! j' = None" "nopt s (i', j') < ?n"
          "\<forall>p\<in>set pre. cell_at (board s) p = None \<longrightarrow> nopt s (i', j') < nopt s p \<and> 2 \<le> nopt s p"
          "nopt s (i', j') = 1 \<or>
             (\<forall>p\<in>set post. cell_at (board s) p = None \<longrightarrow> nopt s (i', j') \<le> nopt s p)"
          by blast
        have "?pick (c # cs) best m"
          using q sel many c r
          by (intro exI [of _ "c # pre"] exI [of _ i'] exI [of _ j'] exI [of _ post]) auto
        then show ?thesis ..
      qed
    qed
  next
    case False
    then have r: "findBestCell_loop s (c # cs) best m = findBestCell_loop s cs best m"
      by (auto simp: c n Let_def)
    have hd: "cell_at (board s) c = None \<longrightarrow> m \<le> ?n"
      using False by (auto simp: c cell_at_def)
    from Cons.IH [OF Cons.prems, of best] show ?thesis
    proof
      assume "?keep cs best m"
      then have "?keep (c # cs) best m" using r hd c by simp
      then show ?thesis ..
    next
      assume "?pick cs best m"
      then obtain pre i' j' post where q: "cs = pre @ (i', j') # post"
        "findBestCell_loop s cs best m = Some (i', j', getValidNumbers s i' j')"
        "board s ! i' ! j' = None" "nopt s (i', j') < m"
        "\<forall>p\<in>set pre. cell_at (board s) p = None \<longrightarrow> nopt s (i', j') < nopt s p \<and> 2 \<le> nopt s p"
        "nopt s (i', j') = 1 \<or>
           (\<forall>p\<in>set post. cell_at (board s) p = None \<longrightarrow> nopt s (i', j') \<le> nopt s p)"
        by blast
      have "?pick (c # cs) best m"
        using q hd c r Cons.prems
        by (intro exI [of _ "c # pre"] exI [of _ i'] exI [of _ j'] exI [of _ post]) auto
      then show ?thesis ..
    qed
  qed
qed

text \<open>
  C8, as stated, fails on both boards above. On the first, the scan stops at cell (0,0)
  with one valid number although the empty cell (4,4) has none, so the chosen cell is not
  one with the fewest candidates. On the second, cell (8,8) has exactly one valid number
  but the cell chosen is (4,4), which has none.
\<close>

theorem findBestCell_counterexample:
  "findBestCell (constructor single_then_dead) = Some (0, 0, [''3'']) \<and>
   board (constructor single_then_dead) ! 4 ! 4 = None \<and>
   getValidNumbers (constructor single_then_dead) 4 4 = [] \<and>
   findBestCell (constructor dead_then_single) = Some (4, 4, []) \<and>
   board (constructor dead_then_single) ! 8 ! 8 = None \<and>
   getValidNumbers (constructor dead_then_single) 8 8 = [''1'']"
  by code_simp

text \<open>
  C8, amended: findBestCell returns null exactly when no cell is empty. Otherwise it
  returns an empty cell together with its valid numbers, such that every empty cell
  before it in the scan order (rows 0 to 8, columns 0 to 8 within a row) has at least two
  valid numbers and more than the chosen cell has, and such that either the chosen cell has
  exactly one valid number (the scan stops there) or no empty cell after it has fewer
  valid numbers than the chosen cell. In words: the first empty cell with at most one
  valid number if there is one, else the first empty cell with the fewest.
\<close>

theorem findBestCell_choice:
  assumes "wf_board (board s)"
  shows "(findBestCell s = None \<longleftrightarrow> (\<forall>p\<in>set all_cells. cell_at (board s) p \<noteq> None)) \<and>
         (\<forall>i j opts. findBestCell s = Some (i, j, opts) \<longrightarrow>
            (\<exists>pre post. all_cells = pre @ (i, j) # post \<and> board s ! i ! j = None \<and>
               opts = getValidNumbers s i j \<and>
               (\<forall>p\<in>set pre. cell_at (board s) p = None \<longrightarrow>
                    length opts < nopt s p \<and> 2 \<le> nopt s p) \<and>
               (length opts = 1 \<or>
                (\<forall>p\<in>set post. cell_at (board s) p = None \<longrightarrow> length opts \<le> nopt s p))))"
proof -
  have m: "(2::nat) \<le> 10" by simp
  from findBestCell_loop_char [OF m, of s all_cells None]
  show ?thesis
  proof
    assume k: "findBestCell_loop s all_cells None 10 = None \<and>
          (\<forall>p\<in>set all_cells. cell_at (board s) p = None \<longrightarrow> 10 \<le> nopt s p)"
    have "\<forall>p\<in>set all_cells. cell_at (board s) p \<noteq> None"
    proof
      fix p assume "p \<in> set all_cells"
      then show "cell_at (board s) p \<noteq> None" using k nopt_le_9 [of s p] by fastforce
    qed
    then show ?thesis using k by (simp add: findBestCell_def)
  next
    assume "\<exists>pre i j post. all_cells = pre @ (i, j) # post \<and>
            findBestCell_loop s all_cells None 10 = Some (i, j, getValidNumbers s i j) \<and>
            board s ! i ! j = None \<and> nopt s (i, j) < 10 \<and>
            (\<forall>p\<in>set pre. cell_at (board s) p = None \<longrightarrow> nopt s (i, j) < nopt s p \<and> 2 \<le> nopt s p) \<and>
            (nopt s (i, j) = 1 \<or>
             (\<forall>p\<in>set post. cell_at (board s) p = None \<longrightarrow> nopt s (i, j) \<le> nopt s p))"
    then obtain pre i j post where q: "all_cells = pre @ (i, j) # post"
        "findBestCell s = Some (i, j, getValidNumbers s i j)"
        "board s ! i ! j = None"
        "\<forall>p\<in>set pre. cell_at (board s) p = None \<longrightarrow> nopt s (i, j) < nopt s p \<and> 2 \<le> nopt s p"
        "nopt s (i, j) = 1 \<or>
           (\<forall>p\<in>set post. cell_at (board s) p = None \<longrightarrow> nopt s (i, j) \<le> nopt s p)"
      unfolding findBestCell_def by blast
    have "(i, j) \<in> set all_cells" using q(1) by (metis in_set_conv_decomp)
    moreover have "cell_at (board s) (i, j) = None" using q(3) by (simp add: cell_at_def)
    ultimately have "\<not> (\<forall>p\<in>set all_cells. cell_at (board s) p \<noteq> None)"
      by blast
    moreover have "\<exists>pre post. all_cells = pre @ (i, j) # post \<and> board s ! i ! j = None \<and>
               getValidNumbers s i j = getValidNumbers s i j \<and>
               (\<forall>p\<in>set pre. cell_at (board s) p = None \<longrightarrow>
                    length (getValidNumbers s i j) < nopt s p \<and> 2 \<le> nopt s p) \<and>
               (length (getValidNumbers s i j) = 1 \<or>
                (\<forall>p\<in>set post. cell_at (board s) p = None \<longrightarrow>
                   length (getValidNumbers s i j) \<le> nopt s p))"
      using q by (intro exI [of _ pre] exI [of _ post]) (simp add: nopt_def)
    ultimately show ?thesis using q(2) by auto
  qed
qed


theorem findBestCell_choice_witness:
  "wf_board (board (constructor single_then_dead)) \<and>
   (\<exists>pre post. all_cells = pre @ (0, 0) # post \<and>
      board (constructor single_then_dead) ! 0 ! 0 = None \<and>
      [''3''] = getValidNumbers (constructor single_then_dead) 0 0 \<and>
      (\<forall>p\<in>set pre. cell_at (board (constructor single_then_dead)) p = None \<longrightarrow>
           length [''3''] < nopt (constructor single_then_dead) p \<and>
           2 \<le> nopt (constructor single_then_dead) p))"
proof -
  have w: "wf_board (board (constructor single_then_dead))" by code_simp
  have f: "findBestCell (constructor single_then_dead) = Some (0, 0, [''3''])" by code_simp
  show ?thesis using findBestCell_choice [OF w] f w by blast
qed

section \<open>solve on a board with a duplicate\<close>

text \<open>
  C9: solve does not check its input. The board \<open>dup_board\<close> has 3 twice in its first row
  and is rejected by isValidBoard; the constructor's set for that row holds 3 once; and
  solve returns a board without empty cells that still has the two 3s in its first row.
\<close>

theorem solve_accepts_duplicate:
  "wf_board dup_board \<and> isValidBoard dup_board = False \<and>
   rows (constructor dup_board) ! 0 =
     ''3'' # ''4'' # ''6'' # ''7'' # ''8'' # ''9'' # ''1'' # ''2'' # [] \<and>
   solve dup_board = Some (Some dup_solved) \<and> no_empty dup_solved \<and>
   dup_solved ! 0 ! 0 = Some ''3'' \<and> dup_solved ! 0 ! 1 = Some ''3'' \<and>
   unique_inv dup_solved = False"
  by code_simp

theorem solve_accepts_duplicate_witness:
  "\<exists>g g'. wf_board g \<and> isValidBoard g = False \<and> solve g = Some (Some g') \<and> no_empty g' \<and>
     unique_inv g' = False"
  using solve_accepts_duplicate by blast

section \<open>Backtracking search\<close>

subsection \<open>Boards and updates\<close>

lemma wf_board_length: "wf_board b \<Longrightarrow> length b = 9"
  by (simp add: wf_board_def)

lemma wf_board_update: "wf_board b \<Longrightarrow> wf_board (b[i := (b ! i)[j := v]])"
proof (cases "i < length b")
  case True
  assume "wf_board b"
  then show ?thesis using True
    by (auto simp: wf_board_def list_all_length nth_list_update)
next
  case False
  assume "wf_board b"
  moreover have "b[i := (b ! i)[j := v]] = b"
    using False by (simp add: list_update_beyond)
  ultimately show ?thesis by simp
qed

lemma cell_at_update:
  assumes "wf_board b" "i < 9" "j < 9"
  shows "cell_at (b[i := (b ! i)[j := v]]) p = (if p = (i, j) then v else cell_at b p)"
proof -
  have "i < length b" "j < length (b ! i)"
    using assms by (simp_all add: wf_board_length wf_board_nth)
  then show ?thesis
    by (cases p) (auto simp: cell_at_def nth_list_update)
qed

lemma set_new_Set [simp]: "set (new_Set xs) = set xs"
proof -
  have "set (fold set_add xs acc) = set xs \<union> set acc" for acc
    by (induction xs arbitrary: acc) auto
  then show ?thesis by (simp add: new_Set_def)
qed

lemma getValidNumbers_iff:
  "num \<in> set (getValidNumbers s i j) \<longleftrightarrow>
     num \<in> set digits \<and> num \<notin> set (rows s ! i) \<and> num \<notin> set (cols s ! j) \<and>
     num \<notin> set (squares s ! getSquareIndex i j)"
  by (auto simp: getValidNumbers_def Let_def)

lemma delete_add_id: "x \<notin> set s \<Longrightarrow> set_delete x (set_add x s) = s"
  by (simp add: set_delete_def set_add_def)

lemma board_place [simp]:
  "board (place s i j num) = (board s)[i := (board s ! i)[j := Some num]]"
  by (simp add: place_def add_constraints_def)

lemma unplace_place:
  assumes "struct_inv s" "i < 9" "j < 9" "board s ! i ! j = None"
    "num \<in> set (getValidNumbers s i j)"
  shows "unplace (place s i j num) i j num = s"
proof -
  define b where "b = board s"
  have l: "i < length b" "j < length (b ! i)" "i < length (rows s)" "j < length (cols s)"
    "getSquareIndex i j < length (squares s)"
    using assms(1-3)
    by (simp_all add: b_def struct_inv_def wf_board_length wf_board_nth square_index_lt)
  have n: "num \<notin> set (rows s ! i)" "num \<notin> set (cols s ! j)"
    "num \<notin> set (squares s ! getSquareIndex i j)"
    using assms(5) by (simp_all add: getValidNumbers_iff)
  have "(b ! i)[j := None] = b ! i"
    using assms(4) unfolding b_def by (metis list_update_id)
  then have "b[i := (b ! i)[j := Some num], i := (b[i := (b ! i)[j := Some num]] ! i)[j := None]] = b"
    using l by simp
  then have b: "(board s)[i := (board s ! i)[j := Some num],
      i := ((board s)[i := (board s ! i)[j := Some num]] ! i)[j := None]] = board s"
    by (simp add: b_def)
  show ?thesis
    unfolding unplace_def place_def add_constraints_def delete_constraints_def
    using l n b by (simp add: delete_add_id b_def)
qed

lemma struct_inv_place: "struct_inv s \<Longrightarrow> struct_inv (place s i j num)"
  by (simp add: struct_inv_def place_def add_constraints_def wf_board_update)

subsection \<open>What findBestCell returns\<close>

lemma findBestCell_SomeD:
  assumes "findBestCell s = Some (i, j, opts)"
  shows "i < 9 \<and> j < 9 \<and> board s ! i ! j = None \<and> opts = getValidNumbers s i j"
proof -
  have m: "(2::nat) \<le> 10" by simp
  from findBestCell_loop_char [OF m, of s all_cells None] assms
  obtain pre post where "all_cells = pre @ (i, j) # post" "board s ! i ! j = None"
    "opts = getValidNumbers s i j"
    unfolding findBestCell_def by auto
  moreover from this have "(i, j) \<in> set all_cells" by (metis in_set_conv_decomp)
  ultimately show ?thesis by (simp add: set_all_cells)
qed

lemma findBestCell_NoneD:
  assumes "findBestCell s = None" "p \<in> set all_cells"
  shows "cell_at (board s) p \<noteq> None"
proof -
  have m: "(2::nat) \<le> 10" by simp
  from findBestCell_loop_char [OF m, of s all_cells None] assms(1)
  have "\<forall>p\<in>set all_cells. cell_at (board s) p = None \<longrightarrow> 10 \<le> nopt s p"
    unfolding findBestCell_def by auto
  then show ?thesis using nopt_le_9 [of s p] assms(2) by fastforce
qed

subsection \<open>A failed search restores the solver\<close>

lemma try_options_restores:
  assumes rec: "\<And>s0 s1. recur s0 = Some (False, s1) \<Longrightarrow> struct_inv s0 \<Longrightarrow> s1 = s0"
    and "struct_inv s" "i < 9" "j < 9" "board s ! i ! j = None"
    and "set opts \<subseteq> set (getValidNumbers s i j)"
    and "try_options recur s i j opts = Some (False, s')"
  shows "s' = s"
  using assms(6,7)
proof (induction opts)
  case Nil
  then show ?case by simp
next
  case (Cons num rest)
  from Cons.prems(2) obtain s1 where r: "recur (place s i j num) = Some (False, s1)"
    and t: "try_options recur (unplace s1 i j num) i j rest = Some (False, s')"
    by (auto split: option.splits if_splits)
  have "s1 = place s i j num"
    by (rule rec [OF r struct_inv_place [OF assms(2)]])
  then have "unplace s1 i j num = s"
    using unplace_place [OF assms(2-5), of num] Cons.prems(1) by simp
  then show ?case using Cons.IH t Cons.prems(1) by simp
qed

lemma backtrack_restores:
  "backtrack n s = Some (False, s') \<Longrightarrow> struct_inv s \<Longrightarrow> s' = s"
proof (induction n arbitrary: s s')
  case 0
  then show ?case by simp
next
  case (Suc n)
  show ?case
  proof (cases "findBestCell s")
    case None
    then show ?thesis using Suc.prems by simp
  next
    case (Some t)
    obtain i j opts where t: "t = (i, j, opts)" by (cases t)
    have f: "i < 9" "j < 9" "board s ! i ! j = None" "opts = getValidNumbers s i j"
      using findBestCell_SomeD [of s i j opts] Some t by simp_all
    have "try_options (backtrack n) s i j opts = Some (False, s')"
      using Suc.prems(1) Some t by simp
    then show ?thesis
      using try_options_restores [of "backtrack n" s i j opts s'] Suc.IH Suc.prems(2) f
      by blast
  qed
qed


subsection \<open>Counting empty cells\<close>

lemma filter_None_update:
  "j < length r \<Longrightarrow> r ! j = None \<Longrightarrow>
   Suc (length (filter (\<lambda>x. x = None) (r[j := Some v]))) = length (filter (\<lambda>x. x = None) r)"
proof (induction r arbitrary: j)
  case Nil
  then show ?case by simp
next
  case (Cons x r)
  then show ?case by (cases j) auto
qed

lemma count_empty_update:
  "i < length b \<Longrightarrow> j < length (b ! i) \<Longrightarrow> b ! i ! j = None \<Longrightarrow>
   Suc (count_empty (b[i := (b ! i)[j := Some v]])) = count_empty b"
proof (induction b arbitrary: i)
  case Nil
  then show ?case by simp
next
  case (Cons r b)
  show ?case
  proof (cases i)
    case 0
    then show ?thesis
      using Cons.prems filter_None_update [of j r v] by (simp add: count_empty_def)
  next
    case (Suc k)
    then show ?thesis
      using Cons.prems Cons.IH [of k] by (simp add: count_empty_def)
  qed
qed

lemma count_empty_le: assumes "wf_board b" shows "count_empty b \<le> 81"
proof -
  have "map length b = map (\<lambda>_. 9) b"
    using assms by (intro map_cong) (auto simp: wf_board_def list_all_iff)
  then have "sum_list (map length b) = sum_list (map (\<lambda>_. 9) b)"
    by (simp only:)
  then have "sum_list (map length b) = 9 * length b"
    by (simp add: sum_list_triv)
  then have "length (concat b) = 81"
    using assms by (simp add: length_concat wf_board_def)
  moreover have "count_empty b \<le> length (concat b)"
    unfolding count_empty_def by (rule length_filter_le)
  ultimately show ?thesis by simp
qed

lemma count_empty_place:
  assumes "struct_inv s" "i < 9" "j < 9" "board s ! i ! j = None"
  shows "Suc (count_empty (board (place s i j num))) = count_empty (board s)"
proof -
  have "i < length (board s)" "j < length (board s ! i)"
    using assms(1-3) by (simp_all add: struct_inv_def wf_board_length wf_board_nth)
  then show ?thesis using assms(4) by (simp add: count_empty_update)
qed

subsection \<open>The search returns within the depth bound\<close>

lemma try_options_returns:
  assumes rec: "\<And>s0. struct_inv s0 \<Longrightarrow> count_empty (board s0) < n \<Longrightarrow> \<exists>r. recur s0 = Some r"
    and restore: "\<And>s0 s1. recur s0 = Some (False, s1) \<Longrightarrow> struct_inv s0 \<Longrightarrow> s1 = s0"
    and "struct_inv s" "i < 9" "j < 9" "board s ! i ! j = None"
    and "count_empty (board s) < Suc n"
    and "set opts \<subseteq> set (getValidNumbers s i j)"
  shows "\<exists>r. try_options recur s i j opts = Some r"
  using assms(8)
proof (induction opts)
  case Nil
  show ?case by (intro exI [of _ "(False, s)"]) simp
next
  case (Cons num rest)
  have st: "struct_inv (place s i j num)" by (rule struct_inv_place [OF assms(3)])
  have "count_empty (board (place s i j num)) < n"
    using count_empty_place [OF assms(3-6), of num] assms(7) by linarith
  then obtain ok s1 where r: "recur (place s i j num) = Some (ok, s1)"
    using rec [OF st] by fastforce
  show ?case
  proof (cases ok)
    case True
    then show ?thesis using r by (intro exI [of _ "(True, s1)"]) simp
  next
    case False
    then have "s1 = place s i j num" using restore [OF _ st] r by simp
    then have "unplace s1 i j num = s"
      using unplace_place [OF assms(3-6), of num] Cons.prems by simp
    then show ?thesis using r False Cons.IH Cons.prems by simp
  qed
qed

lemma backtrack_returns:
  "struct_inv s \<Longrightarrow> count_empty (board s) < n \<Longrightarrow> \<exists>r. backtrack n s = Some r"
proof (induction n arbitrary: s)
  case 0
  then show ?case by simp
next
  case (Suc n)
  show ?case
  proof (cases "findBestCell s")
    case None
    then show ?thesis by (intro exI [of _ "(True, s)"]) simp
  next
    case (Some t)
    obtain i j opts where t: "t = (i, j, opts)" by (cases t)
    have f: "i < 9" "j < 9" "board s ! i ! j = None" "opts = getValidNumbers s i j"
      using findBestCell_SomeD [of s i j opts] Some t by simp_all
    have "\<exists>r. try_options (backtrack n) s i j opts = Some r"
      by (rule try_options_returns [OF Suc.IH backtrack_restores Suc.prems(1) f(1-3) Suc.prems(2)])
         (simp_all add: f(4))
    then show ?thesis using Some t by simp
  qed
qed


subsection \<open>Filling an empty cell keeps the solver's invariant\<close>

lemma seen_cong:
  assumes "\<And>p. p \<in> A \<Longrightarrow> cell_at b' p = cell_at b p" "seen b A rs cs sqs"
  shows "seen b' A rs cs sqs"
  using assms unfolding seen_def by simp

lemma seen_remove_None:
  assumes "seen b A rs cs sqs" "cell_at b p = None"
  shows "seen b (A - {p}) rs cs sqs"
proof -
  have "(\<exists>q\<in>A - {p}. P q \<and> cell_at b q = Some v) \<longleftrightarrow> (\<exists>q\<in>A. P q \<and> cell_at b q = Some v)"
    for P v using assms(2) by auto
  then show ?thesis using assms(1) unfolding seen_def by simp
qed

lemma conflict_free_on_cong:
  assumes "\<And>p. p \<in> A \<Longrightarrow> cell_at b' p = cell_at b p" "conflict_free_on A b"
  shows "conflict_free_on A b'"
  using assms unfolding conflict_free_on_def by simp

lemma insert_all_cells: "i < 9 \<Longrightarrow> j < 9 \<Longrightarrow> insert (i, j) (set all_cells - {(i, j)}) = set all_cells"
  by (auto simp: set_all_cells)

lemma seen_fill:
  assumes "seen b (set all_cells) rs cs sqs" "wf_board b" "i < 9" "j < 9" "b ! i ! j = None"
  shows "seen (b[i := (b ! i)[j := Some num]]) (set all_cells) (rs[i := set_add num (rs ! i)])
           (cs[j := set_add num (cs ! j)])
           (sqs[getSquareIndex i j := set_add num (sqs ! getSquareIndex i j)])"
proof -
  let ?A = "set all_cells - {(i, j)}"
  define b' where "b' = b[i := (b ! i)[j := Some num]]"
  have c: "\<And>p. cell_at b' p = (if p = (i, j) then Some num else cell_at b p)"
    unfolding b'_def by (rule cell_at_update [OF assms(2,3,4)])
  have "seen b ?A rs cs sqs"
    by (rule seen_remove_None [OF assms(1)]) (simp add: cell_at_def assms(5))
  then have "seen b' ?A rs cs sqs"
    by (rule seen_cong [rotated]) (simp add: c)
  moreover have "cell_at b' (i, j) = Some num" by (simp add: c)
  ultimately have "seen b' (insert (i, j) ?A) (rs[i := set_add num (rs ! i)])
           (cs[j := set_add num (cs ! j)])
           (sqs[getSquareIndex i j := set_add num (sqs ! getSquareIndex i j)])"
    using assms(3,4) by (rule seen_insert_Some)
  then show ?thesis
    unfolding b'_def insert_all_cells [OF assms(3,4)] .
qed

lemma conflict_free_fill:
  assumes "conflict_free_on (set all_cells) b" "wf_board b" "i < 9" "j < 9"
    and "\<forall>q\<in>set all_cells. related (i, j) q \<longrightarrow> cell_at b q \<noteq> Some num"
  shows "conflict_free_on (set all_cells) (b[i := (b ! i)[j := Some num]])"
proof -
  let ?A = "set all_cells - {(i, j)}"
  define b' where "b' = b[i := (b ! i)[j := Some num]]"
  have c: "\<And>p. cell_at b' p = (if p = (i, j) then Some num else cell_at b p)"
    unfolding b'_def by (rule cell_at_update [OF assms(2,3,4)])
  have "conflict_free_on ?A b"
    by (rule conflict_free_on_mono [OF assms(1)]) auto
  then have "conflict_free_on ?A b'"
    by (rule conflict_free_on_cong [rotated]) (simp add: c)
  moreover have "cell_at b' (i, j) = Some num" by (simp add: c)
  moreover have "\<forall>q\<in>?A. related (i, j) q \<longrightarrow> cell_at b' q \<noteq> Some num"
    using assms(5) by (simp add: c)
  ultimately have "conflict_free_on (insert (i, j) ?A) b'"
    by (rule cf_insert_Some)
  then show ?thesis
    unfolding b'_def insert_all_cells [OF assms(3,4)] .
qed

lemma valid_number_no_conflict:
  assumes "seen b (set all_cells) (rows s) (cols s) (squares s)" "i < 9" "j < 9"
    and "num \<in> set (getValidNumbers s i j)"
  shows "\<forall>q\<in>set all_cells. related (i, j) q \<longrightarrow> cell_at b q \<noteq> Some num"
  using seen_conflict [OF assms(1-3), of num] assms(4)
  by (auto simp: getValidNumbers_iff)

lemma solver_inv_struct: "solver_inv s \<Longrightarrow> struct_inv s"
  by (simp add: solver_inv_def struct_inv_def seen_def)

lemma solver_inv_place:
  assumes "solver_inv s" "i < 9" "j < 9" "board s ! i ! j = None"
    and "num \<in> set (getValidNumbers s i j)"
  shows "solver_inv (place s i j num)"
proof -
  have w: "wf_board (board s)"
    and sn: "seen (board s) (set all_cells) (rows s) (cols s) (squares s)"
    and cf: "conflict_free_on (set all_cells) (board s)"
    using assms(1) by (simp_all add: solver_inv_def)
  have "seen (board (place s i j num)) (set all_cells) (rows (place s i j num))
          (cols (place s i j num)) (squares (place s i j num))"
    using seen_fill [OF sn w assms(2-4), of num] by (simp add: place_def add_constraints_def)
  moreover have "conflict_free_on (set all_cells) (board (place s i j num))"
    using conflict_free_fill [OF cf w assms(2,3) valid_number_no_conflict [OF sn assms(2,3,5)]]
    by simp
  moreover have "wf_board (board (place s i j num))"
    using w by (simp add: wf_board_update)
  ultimately show ?thesis by (simp add: solver_inv_def)
qed

subsection \<open>The constructor\<close>

lemma initializeConstraints_fold:
  assumes "seen (board s) A (rows s) (cols s) (squares s)" "set xs \<subseteq> set all_cells"
  shows "board (fold (\<lambda>(i, j) s. case board s ! i ! j of None \<Rightarrow> s
                                   | Some num \<Rightarrow> add_constraints s i j num) xs s) = board s \<and>
         seen (board s) (A \<union> set xs)
           (rows (fold (\<lambda>(i, j) s. case board s ! i ! j of None \<Rightarrow> s
                                   | Some num \<Rightarrow> add_constraints s i j num) xs s))
           (cols (fold (\<lambda>(i, j) s. case board s ! i ! j of None \<Rightarrow> s
                                   | Some num \<Rightarrow> add_constraints s i j num) xs s))
           (squares (fold (\<lambda>(i, j) s. case board s ! i ! j of None \<Rightarrow> s
                                   | Some num \<Rightarrow> add_constraints s i j num) xs s))"
  using assms
proof (induction xs arbitrary: s A)
  case Nil
  then show ?case by simp
next
  case (Cons p xs)
  obtain i j where p: "p = (i, j)" by (cases p)
  have ij: "i < 9" "j < 9" using Cons.prems(2) p by (auto simp: set_all_cells)
  have xs: "set xs \<subseteq> set all_cells" using Cons.prems(2) by simp
  have un: "A \<union> set (p # xs) = insert p A \<union> set xs" by auto
  show ?case
  proof (cases "board s ! i ! j")
    case None
    then have "seen (board s) (insert p A) (rows s) (cols s) (squares s)"
      by (intro seen_insert_None [OF Cons.prems(1)]) (simp add: cell_at_def p)
    from Cons.IH [OF this xs] show ?thesis
      using None by (simp add: p un [unfolded p])
  next
    case (Some num)
    let ?s = "add_constraints s i j num"
    have b: "board ?s = board s" by (simp add: add_constraints_def)
    have "seen (board s) (insert p A) (rows ?s) (cols ?s) (squares ?s)"
      using seen_insert_Some [OF Cons.prems(1) _ ij, of num] Some
      by (simp add: add_constraints_def cell_at_def p)
    then have "seen (board ?s) (insert p A) (rows ?s) (cols ?s) (squares ?s)"
      by (simp only: b)
    from Cons.IH [OF this xs] show ?thesis
      using Some by (simp add: p un [unfolded p] b)
  qed
qed

lemma constructor_board [simp]: "board (constructor g) = g"
  using initializeConstraints_fold [of "\<lparr>board = g, rows = replicate 9 [], cols = replicate 9 [],
        squares = replicate 9 []\<rparr>" "{}" all_cells] seen_empty [of g]
  by (simp add: constructor_def initializeConstraints_def)

lemma constructor_seen:
  "seen g (set all_cells) (rows (constructor g)) (cols (constructor g)) (squares (constructor g))"
  using initializeConstraints_fold [of "\<lparr>board = g, rows = replicate 9 [], cols = replicate 9 [],
        squares = replicate 9 []\<rparr>" "{}" all_cells] seen_empty [of g]
  by (simp add: constructor_def initializeConstraints_def)

lemma constructor_inv: "wf_board g \<Longrightarrow> unique_inv g \<Longrightarrow> solver_inv (constructor g)"
  using constructor_seen [of g] by (simp add: solver_inv_def unique_inv_iff)

lemma constructor_struct: "wf_board g \<Longrightarrow> struct_inv (constructor g)"
  using constructor_seen [of g] by (simp add: struct_inv_def seen_def)


subsection \<open>A successful search\<close>

lemma extends_refl: "extends b b"
  by (simp add: extends_def)

lemma extends_trans: "extends a b \<Longrightarrow> extends b c \<Longrightarrow> extends a c"
  unfolding extends_def by fastforce

lemma extends_place:
  assumes "struct_inv s" "i < 9" "j < 9" "board s ! i ! j = None"
  shows "extends (board s) (board (place s i j num))"
proof -
  have w: "wf_board (board s)" using assms(1) by (simp add: struct_inv_def)
  show ?thesis
    unfolding extends_def board_place cell_at_update [OF w assms(2,3)]
    using assms(4) by (auto simp: cell_at_def)
qed

lemma try_options_sound:
  assumes rec: "\<And>s0 s1. recur s0 = Some (True, s1) \<Longrightarrow> solver_inv s0 \<Longrightarrow>
                   solver_inv s1 \<and> full (board s1) \<and> extends (board s0) (board s1)"
    and restore: "\<And>s0 s1. recur s0 = Some (False, s1) \<Longrightarrow> struct_inv s0 \<Longrightarrow> s1 = s0"
    and "solver_inv s" "i < 9" "j < 9" "board s ! i ! j = None"
    and "set opts \<subseteq> set (getValidNumbers s i j)"
    and "try_options recur s i j opts = Some (True, s')"
  shows "solver_inv s' \<and> full (board s') \<and> extends (board s) (board s')"
  using assms(7,8)
proof (induction opts)
  case Nil
  then show ?case by simp
next
  case (Cons num rest)
  have st: "struct_inv s" by (rule solver_inv_struct [OF assms(3)])
  have num: "num \<in> set (getValidNumbers s i j)" using Cons.prems(1) by simp
  have pi: "solver_inv (place s i j num)"
    by (rule solver_inv_place [OF assms(3-6) num])
  from Cons.prems(2) obtain ok s1 where r: "recur (place s i j num) = Some (ok, s1)"
    by (auto split: option.splits)
  show ?case
  proof (cases ok)
    case True
    then have "s' = s1" using Cons.prems(2) r by simp
    moreover have "solver_inv s1 \<and> full (board s1) \<and> extends (board (place s i j num)) (board s1)"
      using rec [OF _ pi] r True by simp
    ultimately show ?thesis
      using extends_trans [OF extends_place [OF st assms(4-6), of num]] by blast
  next
    case False
    then have "s1 = place s i j num"
      using restore [OF _ struct_inv_place [OF st]] r by simp
    then have "unplace s1 i j num = s"
      using unplace_place [OF st assms(4-6) num] by simp
    then show ?thesis using Cons.IH Cons.prems r False by simp
  qed
qed

lemma backtrack_sound:
  "backtrack n s = Some (True, s') \<Longrightarrow> solver_inv s \<Longrightarrow>
   solver_inv s' \<and> full (board s') \<and> extends (board s) (board s')"
proof (induction n arbitrary: s s')
  case 0
  then show ?case by simp
next
  case (Suc n)
  show ?case
  proof (cases "findBestCell s")
    case None
    then have "s' = s" using Suc.prems(1) by simp
    moreover have "full (board s)"
      unfolding full_def using findBestCell_NoneD [OF None] by blast
    ultimately show ?thesis using Suc.prems(2) extends_refl by simp
  next
    case (Some t)
    obtain i j opts where t: "t = (i, j, opts)" by (cases t)
    have f: "i < 9" "j < 9" "board s ! i ! j = None" "opts = getValidNumbers s i j"
      using findBestCell_SomeD [of s i j opts] Some t by simp_all
    have "try_options (backtrack n) s i j opts = Some (True, s')"
      using Suc.prems(1) Some t by simp
    then show ?thesis
      using try_options_sound [of "backtrack n" s i j opts s'] Suc.IH backtrack_restores
        Suc.prems(2) f
      by blast
  qed
qed

lemma full_no_empty:
  assumes "wf_board b" "full b"
  shows "no_empty b"
  unfolding no_empty_def list_all_length
proof (intro allI impI)
  fix i j assume "i < length b" "j < length (b ! i)"
  then have "i < 9" "j < 9" using assms(1) by (simp_all add: wf_board_length wf_board_nth)
  then have "(i, j) \<in> set all_cells" by (simp add: set_all_cells)
  then show "b ! i ! j \<noteq> None" using assms(2) by (auto simp: full_def cell_at_def)
qed

lemma solve_returns: "wf_board g \<Longrightarrow> solve g \<noteq> None"
proof -
  assume w: "wf_board g"
  have "count_empty (board (constructor g)) < 82"
    using count_empty_le [OF w] by simp
  then obtain r where "backtrack 82 (constructor g) = Some r"
    using backtrack_returns [OF constructor_struct [OF w]] by blast
  then show ?thesis by (cases r) (simp add: solve_def)
qed

text \<open>
  C1: for a 9x9 board that satisfies the uniqueness invariant, solve returns (the depth
  bound of the model is never reached), and when it returns a board, that board is 9x9,
  has no empty cell, satisfies the uniqueness invariant, and holds in every cell that was
  filled in the input the same symbol as the input.
\<close>

theorem solve_sound:
  assumes "wf_board g" "unique_inv g"
  shows "solve g \<noteq> None \<and>
         (\<forall>g'. solve g = Some (Some g') \<longrightarrow>
            wf_board g' \<and> no_empty g' \<and> unique_inv g' \<and>
            (\<forall>i<9. \<forall>j<9. g ! i ! j \<noteq> None \<longrightarrow> g' ! i ! j = g ! i ! j))"
proof -
  have "wf_board g' \<and> no_empty g' \<and> unique_inv g' \<and>
        (\<forall>i<9. \<forall>j<9. g ! i ! j \<noteq> None \<longrightarrow> g' ! i ! j = g ! i ! j)"
    if "solve g = Some (Some g')" for g'
  proof -
    from that obtain s' where b: "backtrack 82 (constructor g) = Some (True, s')"
      and g': "g' = board s'"
      by (auto simp: solve_def split: option.splits if_splits)
    have r: "solver_inv s'" "full (board s')" "extends g (board s')"
      using backtrack_sound [OF b constructor_inv [OF assms]] by simp_all
    have w: "wf_board g'" using r(1) g' by (simp add: solver_inv_def)
    have n: "no_empty g'" using w r(2) g' by (simp add: full_no_empty)
    have u: "unique_inv g'" using r(1) g' by (simp add: solver_inv_def unique_inv_iff)
    have "g' ! i ! j = g ! i ! j" if "i < 9" "j < 9" "g ! i ! j \<noteq> None" for i j
    proof -
      have "(i, j) \<in> set all_cells" using that by (simp add: set_all_cells)
      then show ?thesis
        using r(3) g' that(3) unfolding extends_def cell_at_def by fastforce
    qed
    then show ?thesis using w n u by blast
  qed
  then show ?thesis using solve_returns [OF assms(1)] by blast
qed

theorem solve_sound_witness:
  "wf_board valid_two_empty \<and> unique_inv valid_two_empty \<and>
   solve valid_two_empty = Some (Some valid_solved) \<and>
   no_empty valid_solved \<and> unique_inv valid_solved"
proof -
  have w: "wf_board valid_two_empty" by code_simp
  have u: "unique_inv valid_two_empty" by code_simp
  have s: "solve valid_two_empty = Some (Some valid_solved)" by code_simp
  show ?thesis using solve_sound [OF w u] w u s by blast
qed

section \<open>autoSolveCells keeps filled cells and the uniqueness invariant\<close>

lemma removeCandidate_snd:
  "snd (removeCandidate st r c v) =
     st\<lparr>candidates := (candidates st)((r, c) := map_option (set_delete v) (candidates st (r, c)))\<rparr>"
proof (cases "candidates st (r, c)")
  case None
  then have "(candidates st)((r, c) := None) = candidates st" by (metis fun_upd_idem)
  then show ?thesis using None by (simp add: removeCandidate_def)
next
  case (Some cc)
  show ?thesis
  proof (cases "v \<in> set cc")
    case True
    then show ?thesis using Some by (simp add: removeCandidate_def)
  next
    case False
    then have "set_delete v cc = cc" by (simp add: set_delete_def)
    moreover have "(candidates st)((r, c) := Some cc) = candidates st"
      using Some by (metis fun_upd_idem)
    ultimately show ?thesis using Some False by (simp add: removeCandidate_def)
  qed
qed

lemma fold_removeCandidate:
  "fold (\<lambda>p st. snd (removeCandidate st (fst p) (snd p) v)) ps st =
     st\<lparr>candidates := (\<lambda>p. if p \<in> set ps then map_option (set_delete v) (candidates st p)
                              else candidates st p)\<rparr>"
proof (induction ps arbitrary: st)
  case Nil
  then show ?case by simp
next
  case (Cons a ps)
  have idem: "map_option (set_delete v) (map_option (set_delete v) x) = map_option (set_delete v) x"
    for x :: "string js_set option"
    by (cases x) (simp_all add: set_delete_def)
  let ?f = "\<lambda>p st. snd (removeCandidate st (fst p) (snd p) v)"
  let ?st = "snd (removeCandidate st (fst a) (snd a) v)"
  have c: "candidates ?st = (candidates st)(a := map_option (set_delete v) (candidates st a))"
    by (simp add: removeCandidate_snd)
  have "fold ?f (a # ps) st = fold ?f ps ?st" by simp
  also have "\<dots> = ?st\<lparr>candidates := (\<lambda>p. if p \<in> set ps
        then map_option (set_delete v) (candidates ?st p) else candidates ?st p)\<rparr>"
    by (rule Cons.IH)
  also have "(\<lambda>p. if p \<in> set ps then map_option (set_delete v) (candidates ?st p)
        else candidates ?st p) =
      (\<lambda>p. if p \<in> set (a # ps) then map_option (set_delete v) (candidates st p)
        else candidates st p)"
    unfolding c by (auto simp: fun_eq_iff idem)
  also have "?st\<lparr>candidates := (\<lambda>p. if p \<in> set (a # ps)
        then map_option (set_delete v) (candidates st p) else candidates st p)\<rparr> =
      st\<lparr>candidates := (\<lambda>p. if p \<in> set (a # ps)
        then map_option (set_delete v) (candidates st p) else candidates st p)\<rparr>"
    by (simp add: removeCandidate_snd)
  finally show ?case .
qed


lemma fold_pairs:
  "fold (\<lambda>i st. f (b i) (f (a i) st)) xs st = fold f (concat (map (\<lambda>i. [a i, b i]) xs)) st"
  by (induction xs arbitrary: st) simp_all

lemma updateCell_eq:
  "updateCell st row col v =
     st\<lparr>newBoard := (newBoard st)[row := (newBoard st ! row)
                     [col := \<lparr>cell_value = Some v, cell_source = Some System\<rparr>]],
        hasChanges := True, iterationChanges := True,
        solver := add_constraints (setBoardCell (solver st) row col (Some v)) row col v,
        candidates := (\<lambda>p. if p \<in> set (pruned_cells row col)
                            then map_option (set_delete v) (((candidates st)((row, col) := None)) p)
                            else ((candidates st)((row, col) := None)) p)\<rparr>"
proof -
  let ?f = "\<lambda>p st. snd (removeCandidate st (fst p) (snd p) v)"
  have 1: "(\<lambda>i st. snd (removeCandidate (snd (removeCandidate st row i v)) i col v)) =
           (\<lambda>i st. ?f (i, col) (?f (row, i) st))"
    by simp
  have 2: "(\<lambda>(r, c) st. snd (removeCandidate st r c v)) = ?f"
    by (simp add: fun_eq_iff)
  have 3: "List.product [getSquareIndex row col div 3 * 3..<getSquareIndex row col div 3 * 3 + 3]
             [getSquareIndex row col mod 3 * 3..<getSquareIndex row col mod 3 * 3 + 3] =
           square_cells (getSquareIndex row col)"
    by (simp add: square_cells_def)
  define st3 where "st3 = st\<lparr>newBoard := (newBoard st)[row := (newBoard st ! row)
                     [col := \<lparr>cell_value = Some v, cell_source = Some System\<rparr>]],
        hasChanges := True, iterationChanges := True,
        solver := add_constraints (setBoardCell (solver st) row col (Some v)) row col v,
        candidates := (candidates st)((row, col) := None)\<rparr>"
  have "updateCell st row col v =
      fold ?f (square_cells (getSquareIndex row col))
        (fold ?f (concat (map (\<lambda>i. [(row, i), (i, col)]) [0..<9])) st3)"
    unfolding updateCell_def Let_def 1 2 3 fold_pairs [of ?f] st3_def by simp
  also have "\<dots> = fold ?f (pruned_cells row col) st3"
    by (simp add: pruned_cells_def)
  also have "\<dots> = st3\<lparr>candidates := (\<lambda>p. if p \<in> set (pruned_cells row col)
        then map_option (set_delete v) (candidates st3 p) else candidates st3 p)\<rparr>"
    by (rule fold_removeCandidate)
  finally have e: "updateCell st row col v = st3\<lparr>candidates := (\<lambda>p. if p \<in> set (pruned_cells row col)
        then map_option (set_delete v) (candidates st3 p) else candidates st3 p)\<rparr>" .
  have c3: "candidates st3 = (candidates st)((row, col) := None)"
    by (simp add: st3_def)
  have r: "st3\<lparr>candidates := X\<rparr> = st\<lparr>newBoard := (newBoard st)[row := (newBoard st ! row)
                     [col := \<lparr>cell_value = Some v, cell_source = Some System\<rparr>]],
        hasChanges := True, iterationChanges := True,
        solver := add_constraints (setBoardCell (solver st) row col (Some v)) row col v,
        candidates := X\<rparr>" for X
    by (simp add: st3_def)
  show ?thesis unfolding e c3 r ..
qed


lemma related_in_pruned:
  assumes "i < 9" "j < 9" "p \<in> set all_cells" "related (i, j) p"
  shows "p \<in> set (pruned_cells i j)"
proof -
  obtain a b where p: "p = (a, b)" by (cases p)
  have ab: "a < 9" "b < 9" using assms(3) p by (simp_all add: set_all_cells)
  from assms(4) p consider "i = a" | "j = b" | "getSquareIndex i j = getSquareIndex a b"
    by (auto simp: related_def)
  then show ?thesis
  proof cases
    case 1
    then show ?thesis using ab p by (auto simp: pruned_cells_def)
  next
    case 2
    then show ?thesis using ab p by (auto simp: pruned_cells_def)
  next
    case 3
    then have "p \<in> set (square_cells (getSquareIndex i j))"
      using in_square_cells [OF ab] p by simp
    then show ?thesis by (simp add: pruned_cells_def)
  qed
qed

lemma wf_values [simp]: "wf_board (boardWithSourceToSimple b) = wf_board b"
  by (simp add: wf_board_def boardWithSourceToSimple_def list_all_iff)

lemma values_update:
  assumes "row < length nb"
  shows "boardWithSourceToSimple (nb[row := (nb ! row)[col := c]]) =
         (boardWithSourceToSimple nb)[row := (boardWithSourceToSimple nb ! row)[col := cell_value c]]"
  using assms by (simp add: boardWithSourceToSimple_def map_update)

lemma cell_at_values:
  assumes "wf_board b" "p \<in> set all_cells"
  shows "cell_at (boardWithSourceToSimple b) p = cell_value (scell b p)"
proof -
  have "fst p < 9" "snd p < 9" using assms(2) by (auto simp: set_all_cells)
  then have "fst p < length b" "snd p < length (b ! fst p)"
    using assms(1) by (simp_all add: wf_board_length wf_board_nth)
  then show ?thesis by (simp add: cell_at_def scell_def boardWithSourceToSimple_def)
qed

lemma scell_update:
  assumes "wf_board b" "i < 9" "j < 9"
  shows "scell (b[i := (b ! i)[j := c]]) p = (if p = (i, j) then c else scell b p)"
proof -
  have "i < length b" "j < length (b ! i)"
    using assms by (simp_all add: wf_board_length wf_board_nth)
  then show ?thesis
    by (cases p) (auto simp: scell_def nth_list_update)
qed

lemma auto_inv_flags [simp]:
  "auto_inv g (st\<lparr>iterationChanges := x\<rparr>) = auto_inv g st"
  "auto_inv g (st\<lparr>hasChanges := y\<rparr>) = auto_inv g st"
  by (simp_all add: auto_inv_def)

lemma cands_sound_mono:
  assumes "cands_sound b cm"
    and "\<And>p cc'. p \<in> set all_cells \<Longrightarrow> cm' p = Some cc' \<Longrightarrow>
           \<exists>cc. cm p = Some cc \<and> set cc' \<subseteq> set cc"
  shows "cands_sound b cm'"
  unfolding cands_sound_def
proof (intro ballI allI impI)
  fix p cc' v q
  assume h: "p \<in> set all_cells" "cm' p = Some cc'" "v \<in> set cc'" "q \<in> set all_cells" "related p q"
  from assms(2) [OF h(1,2)] obtain cc where "cm p = Some cc" "set cc' \<subseteq> set cc" by blast
  then show "cell_at b q \<noteq> Some v"
    using assms(1) h unfolding cands_sound_def by blast
qed

lemma auto_inv_removeCandidate:
  assumes "auto_inv g st"
  shows "auto_inv g (snd (removeCandidate st r c v))"
proof -
  have cs: "cands_sound (boardWithSourceToSimple (newBoard st)) (candidates st)"
    using assms by (simp add: auto_inv_def)
  have "cands_sound (boardWithSourceToSimple (newBoard st))
      ((candidates st)((r, c) := map_option (set_delete v) (candidates st (r, c))))"
  proof (rule cands_sound_mono [OF cs])
    fix p cc'
    assume h: "((candidates st)((r, c) := map_option (set_delete v) (candidates st (r, c)))) p = Some cc'"
    show "\<exists>cc. candidates st p = Some cc \<and> set cc' \<subseteq> set cc"
    proof (cases "p = (r, c)")
      case True
      then obtain cc where "candidates st p = Some cc" "cc' = set_delete v cc"
        using h by auto
      then show ?thesis by auto
    next
      case False
      then show ?thesis using h by simp
    qed
  qed
  then show ?thesis
    using assms by (simp add: removeCandidate_snd auto_inv_def)
qed

lemma auto_inv_updateCell:
  assumes "auto_inv g st" "row < 9" "col < 9" "cell_value (newBoard st ! row ! col) = None"
    and "candidates st (row, col) = Some cc" "v \<in> set cc"
  shows "auto_inv g (updateCell st row col v)"
proof -
  define nb where "nb = newBoard st"
  define vb where "vb = boardWithSourceToSimple nb"
  define nb' where "nb' = nb[row := (nb ! row)[col := \<lparr>cell_value = Some v, cell_source = Some System\<rparr>]]"
  define cm' where "cm' = (\<lambda>p. if p \<in> set (pruned_cells row col)
                            then map_option (set_delete v) (((candidates st)((row, col) := None)) p)
                            else ((candidates st)((row, col) := None)) p)"
  have w: "wf_board nb" and wv: "wf_board vb"
    and sn: "seen vb (set all_cells) (rows (solver st)) (cols (solver st)) (squares (solver st))"
    and cf: "conflict_free_on (set all_cells) vb"
    and cs: "cands_sound vb (candidates st)"
    and fr: "frame g nb"
    using assms(1) by (simp_all add: auto_inv_def nb_def vb_def)
  have rc: "(row, col) \<in> set all_cells" using assms(2,3) by (simp add: set_all_cells)
  have l: "row < length nb" using w assms(2) by (simp add: wf_board_length)
  have vb': "boardWithSourceToSimple nb' = vb[row := (vb ! row)[col := Some v]]"
    unfolding nb'_def vb_def using values_update [OF l] by simp
  have e: "vb ! row ! col = None"
    using cell_at_values [OF w rc] assms(4) by (simp add: cell_at_def scell_def vb_def nb_def)
  have nc: "\<forall>q\<in>set all_cells. related (row, col) q \<longrightarrow> cell_at vb q \<noteq> Some v"
    using cs rc assms(5,6) unfolding cands_sound_def by blast
  have 1: "wf_board nb'" unfolding nb'_def by (rule wf_board_update [OF w])
  have 2: "seen (boardWithSourceToSimple nb') (set all_cells)
      ((rows (solver st))[row := set_add v (rows (solver st) ! row)])
      ((cols (solver st))[col := set_add v (cols (solver st) ! col)])
      ((squares (solver st))[getSquareIndex row col :=
          set_add v (squares (solver st) ! getSquareIndex row col)])"
    unfolding vb' by (rule seen_fill [OF sn wv assms(2,3) e])
  have 3: "conflict_free_on (set all_cells) (boardWithSourceToSimple nb')"
    unfolding vb' by (rule conflict_free_fill [OF cf wv assms(2,3) nc])
  have ca: "\<And>p. cell_at (boardWithSourceToSimple nb') p = (if p = (row, col) then Some v else cell_at vb p)"
    unfolding vb' by (rule cell_at_update [OF wv assms(2,3)])
  have 4: "cands_sound (boardWithSourceToSimple nb') cm'"
    unfolding cands_sound_def
  proof (intro ballI allI impI)
    fix p cc' v' q
    assume h: "p \<in> set all_cells" "cm' p = Some cc'" "v' \<in> set cc'" "q \<in> set all_cells"
      "related p q"
    have pne: "p \<noteq> (row, col)" using h(2) by (auto simp: cm'_def split: if_splits)
    obtain cc0 where cc0: "candidates st p = Some cc0" "set cc' \<subseteq> set cc0"
      using h(2) pne by (auto simp: cm'_def split: if_splits)
    show "cell_at (boardWithSourceToSimple nb') q \<noteq> Some v'"
    proof (cases "q = (row, col)")
      case True
      then have "related (row, col) p" using h(5) by (simp add: related_sym)
      then have "p \<in> set (pruned_cells row col)"
        by (rule related_in_pruned [OF assms(2,3) h(1)])
      then have "v \<notin> set cc'" using h(2) pne by (auto simp: cm'_def)
      then show ?thesis using True h(3) by (auto simp: ca)
    next
      case False
      then show ?thesis
        using cs h cc0 unfolding cands_sound_def ca by auto
    qed
  qed
  have sc: "\<And>p. scell nb' p = (if p = (row, col)
      then \<lparr>cell_value = Some v, cell_source = Some System\<rparr> else scell nb p)"
    unfolding nb'_def by (rule scell_update [OF w assms(2,3)])
  have g0: "cell_value (scell g (row, col)) = None"
  proof (rule ccontr)
    assume "cell_value (scell g (row, col)) \<noteq> None"
    then have "scell nb (row, col) = scell g (row, col)"
      using fr rc unfolding frame_def by blast
    then show False
      using assms(4) \<open>cell_value (scell g (row, col)) \<noteq> None\<close>
      by (simp add: scell_def nb_def)
  qed
  have 5: "frame g nb'"
    unfolding frame_def
  proof (intro ballI conjI impI)
    fix p assume p: "p \<in> set all_cells"
    show "scell nb' p = scell g p" if "cell_value (scell g p) \<noteq> None"
      using that g0 fr p unfolding frame_def sc by auto
    show "cell_value (scell nb' p) \<noteq> None" if "scell nb' p \<noteq> scell g p"
      using that fr p unfolding frame_def sc by auto
    show "cell_source (scell nb' p) = Some System" if "scell nb' p \<noteq> scell g p"
      using that fr p unfolding frame_def sc by auto
  qed
  have "updateCell st row col v =
     st\<lparr>newBoard := nb', hasChanges := True, iterationChanges := True,
        solver := add_constraints (setBoardCell (solver st) row col (Some v)) row col v,
        candidates := cm'\<rparr>"
    unfolding updateCell_eq nb'_def nb_def cm'_def ..
  moreover have "rows (add_constraints (setBoardCell (solver st) row col (Some v)) row col v) =
      (rows (solver st))[row := set_add v (rows (solver st) ! row)]"
    "cols (add_constraints (setBoardCell (solver st) row col (Some v)) row col v) =
      (cols (solver st))[col := set_add v (cols (solver st) ! col)]"
    "squares (add_constraints (setBoardCell (solver st) row col (Some v)) row col v) =
      (squares (solver st))[getSquareIndex row col :=
          set_add v (squares (solver st) ! getSquareIndex row col)]"
    by (simp_all add: add_constraints_def setBoardCell_def)
  ultimately show ?thesis
    using 1 2 3 4 5 by (simp add: auto_inv_def)
qed


lemma fold_invariant:
  assumes "P st" "\<And>x st. x \<in> set xs \<Longrightarrow> P st \<Longrightarrow> P (f x st)"
  shows "P (fold f xs st)"
  using assms by (induction xs arbitrary: st) auto

lemma has_candidateD:
  assumes "has_candidate st r c num"
  shows "cell_value (newBoard st ! r ! c) = None \<and> (\<exists>cc. candidates st (r, c) = Some cc \<and> num \<in> set cc)"
  using assms by (auto simp: has_candidate_def split: option.splits)

lemma auto_inv_fill_candidate:
  assumes "auto_inv g st" "r < 9" "c < 9" "has_candidate st r c num"
  shows "auto_inv g (updateCell st r c num)"
  using has_candidateD [OF assms(4)] auto_inv_updateCell [OF assms(1-3)] by blast

lemma auto_inv_nakedSingles: "auto_inv g st \<Longrightarrow> auto_inv g (nakedSingles st)"
  unfolding nakedSingles_def
proof (rule fold_invariant)
  fix x st assume x: "x \<in> set all_cells" and inv: "auto_inv g st"
  obtain i j where ij: "x = (i, j)" by (cases x)
  have b: "i < 9" "j < 9" using x ij by (simp_all add: set_all_cells)
  show "auto_inv g ((case x of (i, j) \<Rightarrow> \<lambda>st.
          if cell_value (newBoard st ! i ! j) = None
          then case candidates st (i, j) of None \<Rightarrow> st
               | Some cellCandidates \<Rightarrow>
                   if length cellCandidates = 1 then updateCell st i j (cellCandidates ! 0) else st
          else st) st)"
  proof (cases "candidates st (i, j)")
    case None
    then show ?thesis using inv ij by simp
  next
    case (Some cc)
    show ?thesis
    proof (cases "cell_value (newBoard st ! i ! j) = None \<and> length cc = 1")
      case True
      then have "cc ! 0 \<in> set cc" by (simp add: nth_mem)
      then have "auto_inv g (updateCell st i j (cc ! 0))"
        using auto_inv_updateCell [OF inv b _ Some] True by blast
      then show ?thesis using True Some ij by simp
    next
      case False
      then show ?thesis using inv Some ij by auto
    qed
  qed
qed

lemma single_filter_mem:
  assumes "length (filter P xs) = 1"
  shows "filter P xs ! 0 \<in> set xs \<and> P (filter P xs ! 0)"
proof -
  from assms have "0 < length (filter P xs)" by simp
  then have "filter P xs ! 0 \<in> set (filter P xs)" by (rule nth_mem)
  then show ?thesis by simp
qed

lemma auto_inv_hiddenRows: "auto_inv g st \<Longrightarrow> auto_inv g (hiddenRows st)"
  unfolding hiddenRows_def
proof (rule fold_invariant)
  fix x st assume x: "x \<in> set (List.product [0..<9] digits)" and inv: "auto_inv g st"
  obtain row num where rn: "x = (row, num)" by (cases x)
  have r: "row < 9" using x rn by simp
  let ?pc = "filter (\<lambda>col. has_candidate st row col num) [0..<9]"
  have "auto_inv g (updateCell st row (?pc ! 0) num)" if "length ?pc = 1"
  proof -
    have "?pc ! 0 \<in> set [0..<9]" "has_candidate st row (?pc ! 0) num"
      using single_filter_mem [OF that] by simp_all
    then show ?thesis using auto_inv_fill_candidate [OF inv r] by simp
  qed
  then show "auto_inv g ((case x of (row, num) \<Rightarrow> \<lambda>st.
          if num \<in> set (rows (solver st) ! row) then st
          else let possibleCols = filter (\<lambda>col. has_candidate st row col num) [0..<9]
               in if length possibleCols = 1 then updateCell st row (possibleCols ! 0) num
                  else st) st)"
    using inv rn by (simp add: Let_def)
qed

lemma auto_inv_hiddenCols: "auto_inv g st \<Longrightarrow> auto_inv g (hiddenCols st)"
  unfolding hiddenCols_def
proof (rule fold_invariant)
  fix x st assume x: "x \<in> set (List.product [0..<9] digits)" and inv: "auto_inv g st"
  obtain col num where cn: "x = (col, num)" by (cases x)
  have c: "col < 9" using x cn by simp
  let ?pr = "filter (\<lambda>row. has_candidate st row col num) [0..<9]"
  have "auto_inv g (updateCell st (?pr ! 0) col num)" if "length ?pr = 1"
  proof -
    have "?pr ! 0 \<in> set [0..<9]" "has_candidate st (?pr ! 0) col num"
      using single_filter_mem [OF that] by simp_all
    then show ?thesis using auto_inv_fill_candidate [OF inv _ c] by simp
  qed
  then show "auto_inv g ((case x of (col, num) \<Rightarrow> \<lambda>st.
          if num \<in> set (cols (solver st) ! col) then st
          else let possibleRows = filter (\<lambda>row. has_candidate st row col num) [0..<9]
               in if length possibleRows = 1 then updateCell st (possibleRows ! 0) col num
                  else st) st)"
    using inv cn by (simp add: Let_def)
qed

lemma square_cells_product:
  "List.product [k div 3 * 3..<k div 3 * 3 + 3] [k mod 3 * 3..<k mod 3 * 3 + 3] = square_cells k"
  by (simp add: square_cells_def)

lemma square_cells_bound:
  assumes "k < 9" "p \<in> set (square_cells k)"
  shows "fst p < 9 \<and> snd p < 9"
  using assms(2) unfolding set_square_cells [OF assms(1)] by auto

lemma auto_inv_hiddenSquares: "auto_inv g st \<Longrightarrow> auto_inv g (hiddenSquares st)"
  unfolding hiddenSquares_def
proof (rule fold_invariant)
  fix x st assume x: "x \<in> set (List.product [0..<9] digits)" and inv: "auto_inv g st"
  obtain k num where kn: "x = (k, num)" by (cases x)
  have k: "k < 9" using x kn by simp
  let ?pc = "filter (\<lambda>(r, c). has_candidate st r c num) (square_cells k)"
  have "auto_inv g (updateCell st (fst (?pc ! 0)) (snd (?pc ! 0)) num)" if "length ?pc = 1"
  proof -
    have m: "?pc ! 0 \<in> set (square_cells k)"
      and h: "(case ?pc ! 0 of (r, c) \<Rightarrow> has_candidate st r c num)"
      using single_filter_mem [OF that] by simp_all
    have "has_candidate st (fst (?pc ! 0)) (snd (?pc ! 0)) num"
      using h by (simp add: case_prod_beta)
    then show ?thesis
      using auto_inv_fill_candidate [OF inv] square_cells_bound [OF k m] by blast
  qed
  then show "auto_inv g ((case x of (squareIndex, num) \<Rightarrow> \<lambda>st.
          if num \<in> set (squares (solver st) ! squareIndex) then st
          else let startRow = squareIndex div 3 * 3; startCol = squareIndex mod 3 * 3;
                   possibleCells = filter (\<lambda>(r, c). has_candidate st r c num)
                      (List.product [startRow..<startRow + 3] [startCol..<startCol + 3])
               in if length possibleCells = 1
                  then updateCell st (fst (possibleCells ! 0)) (snd (possibleCells ! 0)) num
                  else st) st)"
    using inv kn by (simp add: Let_def square_cells_product)
qed

lemma auto_inv_removeFlagged: "auto_inv g st \<Longrightarrow> auto_inv g (removeFlagged st r c num)"
  using auto_inv_removeCandidate [of g st r c num]
  by (cases "removeCandidate st r c num") (auto simp: removeFlagged_def split: bool.splits)

lemma auto_inv_prune_row:
  "auto_inv g st \<Longrightarrow>
   auto_inv g (fold (\<lambda>col st. if a \<le> col \<and> col < b then st else removeFlagged st r col num) xs st)"
  by (rule fold_invariant) (simp_all add: auto_inv_removeFlagged)

lemma auto_inv_prune_col:
  "auto_inv g st \<Longrightarrow>
   auto_inv g (fold (\<lambda>row st. if a \<le> row \<and> row < b then st else removeFlagged st row c num) xs st)"
  by (rule fold_invariant) (simp_all add: auto_inv_removeFlagged)

lemma if_preserves: "(c \<Longrightarrow> P a) \<Longrightarrow> (\<not> c \<Longrightarrow> P b) \<Longrightarrow> P (if c then a else b)"
  by simp

lemma auto_inv_boxLineStep:
  assumes "auto_inv g st"
  shows "auto_inv g (boxLineStep k num st)"
proof -
  have A: "auto_inv g (if c then fold (\<lambda>col st. if a \<le> col \<and> col < b then st
                 else removeFlagged st r col num) xs st else st)" for c a b r xs
    using assms by (simp add: auto_inv_prune_row)
  have B: "auto_inv g st' \<Longrightarrow> auto_inv g (if c then fold (\<lambda>row st. if a \<le> row \<and> row < b then st
                 else removeFlagged st row r num) xs st' else st')" for st' c a b r xs
    by (simp add: auto_inv_prune_col)
  show ?thesis
    unfolding boxLineStep_def Let_def
    by (rule if_preserves, rule assms, rule B, rule A)
qed

lemma auto_inv_boxLineReduction: "auto_inv g st \<Longrightarrow> auto_inv g (boxLineReduction st)"
  unfolding boxLineReduction_def
proof (rule fold_invariant)
  fix x st assume "auto_inv g st"
  then show "auto_inv g ((case x of (squareIndex, num) \<Rightarrow> boxLineStep squareIndex num) st)"
    by (cases x) (simp add: auto_inv_boxLineStep)
qed

lemma auto_inv_round: "auto_inv g st \<Longrightarrow> auto_inv g (propagation_round st)"
  unfolding propagation_round_def
  by (intro auto_inv_boxLineReduction auto_inv_hiddenSquares auto_inv_hiddenCols
      auto_inv_hiddenRows auto_inv_nakedSingles)

lemma auto_inv_main_loop: "auto_inv g st \<Longrightarrow> auto_inv g (main_loop n st)"
proof (induction n arbitrary: st)
  case 0
  then show ?case by simp
next
  case (Suc n)
  have "auto_inv g (propagation_round (st\<lparr>iterationChanges := False\<rparr>))"
    using Suc.prems by (intro auto_inv_round) simp
  then show ?case using Suc.IH Suc.prems by simp
qed


lemma auto_inv_set_candidates:
  assumes "auto_inv g st" "i < 9" "j < 9"
  shows "auto_inv g (st\<lparr>candidates :=
            (candidates st)((i, j) \<mapsto> new_Set (getValidNumbers (solver st) i j))\<rparr>)"
proof -
  have sn: "seen (boardWithSourceToSimple (newBoard st)) (set all_cells)
       (rows (solver st)) (cols (solver st)) (squares (solver st))"
    and cs: "cands_sound (boardWithSourceToSimple (newBoard st)) (candidates st)"
    using assms(1) by (simp_all add: auto_inv_def)
  have "cands_sound (boardWithSourceToSimple (newBoard st))
      ((candidates st)((i, j) \<mapsto> new_Set (getValidNumbers (solver st) i j)))"
    unfolding cands_sound_def
  proof (intro ballI allI impI)
    fix p cc v q
    assume h: "p \<in> set all_cells"
      "((candidates st)((i, j) \<mapsto> new_Set (getValidNumbers (solver st) i j))) p = Some cc"
      "v \<in> set cc" "q \<in> set all_cells" "related p q"
    show "cell_at (boardWithSourceToSimple (newBoard st)) q \<noteq> Some v"
    proof (cases "p = (i, j)")
      case True
      then have "v \<in> set (getValidNumbers (solver st) i j)" using h(2,3) by auto
      then show ?thesis
        using valid_number_no_conflict [OF sn assms(2,3)] h(4,5) True by blast
    next
      case False
      then have "candidates st p = Some cc" using h(2) by simp
      then show ?thesis using cs h unfolding cands_sound_def by blast
    qed
  qed
  then show ?thesis using assms(1) by (simp add: auto_inv_def)
qed

lemma auto_inv_initializeCandidates:
  assumes "auto_inv g (st\<lparr>candidates := Map.empty\<rparr>)"
  shows "auto_inv g (initializeCandidates st)"
  unfolding initializeCandidates_def
proof (rule fold_invariant [where P = "auto_inv g"])
  show "auto_inv g (st\<lparr>candidates := Map.empty\<rparr>)" by (rule assms)
next
  fix x st assume x: "x \<in> set all_cells" and inv: "auto_inv g st"
  obtain i j where ij: "x = (i, j)" by (cases x)
  have b: "i < 9" "j < 9" using x ij by (simp_all add: set_all_cells)
  show "auto_inv g ((case x of (i, j) \<Rightarrow> \<lambda>st.
          if cell_value (newBoard st ! i ! j) = None
          then st\<lparr>candidates := (candidates st)((i, j) \<mapsto>
                  new_Set (getValidNumbers (solver st) i j))\<rparr>
          else st) st)"
    using inv auto_inv_set_candidates [OF inv b] ij by simp
qed

lemma frame_refl: "frame g g"
  by (simp add: frame_def)

lemma auto_inv_init:
  assumes "wf_board g" "isValidBoard (boardWithSourceToSimple g)"
  shows "auto_inv g (auto_init g)"
  unfolding auto_init_def
proof (rule auto_inv_initializeCandidates)
  have "conflict_free_on (set all_cells) (boardWithSourceToSimple g)"
    using assms(2) by (simp add: isValidBoard_iff unique_inv_iff)
  then show "auto_inv g (\<lparr>solver = constructor (boardWithSourceToSimple g),
        newBoard = map (\<lambda>row. map (\<lambda>cell. cell) row) g,
        candidates = Map.empty, hasChanges = False, iterationChanges = True\<rparr>
        \<lparr>candidates := Map.empty\<rparr>)"
    using assms(1) constructor_seen [of "boardWithSourceToSimple g"]
    by (simp add: auto_inv_def cands_sound_def frame_refl)
qed

lemma auto_inv_final:
  assumes "wf_board g" "isValidBoard (boardWithSourceToSimple g)"
  shows "auto_inv g (main_loop n (auto_init g))"
  by (rule auto_inv_main_loop [OF auto_inv_init [OF assms]])

lemma autoSolveCells_cases:
  "autoSolveCells g = g \<or>
   (isValidBoard (boardWithSourceToSimple g) \<and>
    autoSolveCells g = newBoard (main_loop maxIterations (auto_init g)))"
  by (simp add: autoSolveCells_def Let_def)

lemma frame_cell:
  assumes "frame g b" "i < 9" "j < 9"
  shows "(cell_value (g ! i ! j) \<noteq> None \<longrightarrow> b ! i ! j = g ! i ! j) \<and>
         (b ! i ! j \<noteq> g ! i ! j \<longrightarrow>
            cell_value (b ! i ! j) \<noteq> None \<and> cell_source (b ! i ! j) = Some System)"
proof -
  have "(i, j) \<in> set all_cells" using assms(2,3) by (simp add: set_all_cells)
  then show ?thesis using assms(1) unfolding frame_def scell_def by fastforce
qed

lemma system_first_call: "autoSolveCells system_empty_board = easy_done"
  by code_simp

text \<open>
  C6, as stated, fails on \<open>system_empty_board\<close>: its cell (8,8) is tagged system and empty,
  and autoSolveCells fills it with 9, so a cell tagged system holds a different value
  afterwards. autoSolveCells tests only the value of a cell, never its tag.
\<close>

theorem propagate_fills_system_tagged:
  "wf_board system_empty_board \<and>
   system_empty_board ! 8 ! 8 = \<lparr>cell_value = None, cell_source = Some System\<rparr> \<and>
   autoSolveCells system_empty_board ! 8 ! 8 = \<lparr>cell_value = Some ''9'', cell_source = Some System\<rparr> \<and>
   cell_value (autoSolveCells system_empty_board ! 8 ! 8) \<noteq> cell_value (system_empty_board ! 8 ! 8)"
proof -
  have 1: "wf_board system_empty_board" by code_simp
  have 2: "system_empty_board ! 8 ! 8 = \<lparr>cell_value = None, cell_source = Some System\<rparr>" by code_simp
  have 3: "easy_done ! 8 ! 8 = \<lparr>cell_value = Some ''9'', cell_source = Some System\<rparr>" by code_simp
  show ?thesis using 1 2 3 by (simp add: system_first_call)
qed

text \<open>
  C6, amended: on a 9x9 board, autoSolveCells returns every cell that holds a symbol as it
  was, value and provenance tag, whatever the tag: a cell tagged system that holds a symbol
  holds the same symbol afterwards. A cell of the result that differs from the input was
  empty in the input, whatever its tag, and now holds a symbol tagged system.
\<close>

theorem autoSolveCells_frame:
  assumes "wf_board g" "i < 9" "j < 9"
  shows "wf_board (autoSolveCells g) \<and>
         (cell_value (g ! i ! j) \<noteq> None \<longrightarrow> autoSolveCells g ! i ! j = g ! i ! j) \<and>
         (cell_source (g ! i ! j) = Some System \<and> cell_value (g ! i ! j) \<noteq> None \<longrightarrow>
            cell_value (autoSolveCells g ! i ! j) = cell_value (g ! i ! j)) \<and>
         (autoSolveCells g ! i ! j \<noteq> g ! i ! j \<longrightarrow>
            cell_value (g ! i ! j) = None \<and> cell_value (autoSolveCells g ! i ! j) \<noteq> None \<and>
            cell_source (autoSolveCells g ! i ! j) = Some System)"
proof -
  from autoSolveCells_cases [of g] show ?thesis
  proof
    assume "autoSolveCells g = g"
    then show ?thesis using assms(1) by simp
  next
    assume a: "isValidBoard (boardWithSourceToSimple g) \<and>
        autoSolveCells g = newBoard (main_loop maxIterations (auto_init g))"
    then have inv: "auto_inv g (main_loop maxIterations (auto_init g))"
      using auto_inv_final [OF assms(1)] by simp
    have w: "wf_board (autoSolveCells g)" using inv a by (simp add: auto_inv_def)
    have "frame g (autoSolveCells g)" using inv a by (simp add: auto_inv_def)
    from frame_cell [OF this assms(2,3)] w show ?thesis by metis
  qed
qed

lemma autoSolveCells_unique:
  assumes "wf_board g" "unique_inv (boardWithSourceToSimple g)"
  shows "unique_inv (boardWithSourceToSimple (autoSolveCells g))"
proof -
  from autoSolveCells_cases [of g] show ?thesis
  proof
    assume "autoSolveCells g = g"
    then show ?thesis using assms(2) by simp
  next
    assume a: "isValidBoard (boardWithSourceToSimple g) \<and>
        autoSolveCells g = newBoard (main_loop maxIterations (auto_init g))"
    then have "auto_inv g (main_loop maxIterations (auto_init g))"
      using auto_inv_final [OF assms(1)] by simp
    then show ?thesis using a by (simp add: auto_inv_def unique_inv_iff)
  qed
qed

text \<open>
  C2: for a 9x9 board that satisfies the uniqueness invariant, the board returned by
  autoSolveCells satisfies it, so does \<open>newBoard\<close> after any number of rounds of
  the main loop, and so does every board returned by solve.
\<close>

theorem propagate_solve_keep_unique:
  assumes "wf_board g" "unique_inv (boardWithSourceToSimple g)"
  shows "unique_inv (boardWithSourceToSimple (autoSolveCells g)) \<and>
         (\<forall>n. unique_inv (boardWithSourceToSimple (newBoard (main_loop n (auto_init g))))) \<and>
         (\<forall>g'. solve (boardWithSourceToSimple g) = Some (Some g') \<longrightarrow> unique_inv g')"
proof -
  have v: "isValidBoard (boardWithSourceToSimple g)"
    using assms(2) by (simp add: isValidBoard_iff)
  have "unique_inv (boardWithSourceToSimple (newBoard (main_loop n (auto_init g))))" for n
    using auto_inv_final [OF assms(1) v, of n] by (simp add: auto_inv_def unique_inv_iff)
  moreover have "unique_inv g'" if "solve (boardWithSourceToSimple g) = Some (Some g')" for g'
  proof -
    from that obtain s' where b: "backtrack 82 (constructor (boardWithSourceToSimple g)) = Some (True, s')"
      and g': "g' = board s'"
      by (auto simp: solve_def split: option.splits if_splits)
    have "solver_inv (constructor (boardWithSourceToSimple g))"
      using assms by (intro constructor_inv) simp_all
    from backtrack_sound [OF b this] show ?thesis
      using g' by (simp add: solver_inv_def unique_inv_iff)
  qed
  ultimately show ?thesis using autoSolveCells_unique [OF assms] by blast
qed

section \<open>Calling autoSolveCells twice\<close>

lemma stuck_first_call: "autoSolveCells stuck_board = stuck_once"
  by code_simp

lemma stuck_second_call: "autoSolveCells stuck_once = stuck_twice"
  by code_simp

text \<open>
  C3, as stated, fails on \<open>stuck_board\<close>, which satisfies the uniqueness invariant: the
  first call leaves cell (4,0) empty (box/line reduction has removed its last candidate),
  and a second call, which computes the candidates afresh, fills it with 6.
\<close>

theorem propagate_not_idempotent:
  "wf_board stuck_board \<and> unique_inv (boardWithSourceToSimple stuck_board) \<and>
   autoSolveCells stuck_board ! 4 ! 0 = \<lparr>cell_value = None, cell_source = None\<rparr> \<and>
   autoSolveCells (autoSolveCells stuck_board) ! 4 ! 0 =
     \<lparr>cell_value = Some ''6'', cell_source = Some System\<rparr> \<and>
   autoSolveCells (autoSolveCells stuck_board) \<noteq> autoSolveCells stuck_board"
proof -
  have "wf_board stuck_board" by code_simp
  moreover have "unique_inv (boardWithSourceToSimple stuck_board)" by code_simp
  moreover have "stuck_once ! 4 ! 0 = \<lparr>cell_value = None, cell_source = None\<rparr>" by code_simp
  moreover have "stuck_twice ! 4 ! 0 = \<lparr>cell_value = Some ''6'', cell_source = Some System\<rparr>"
    by code_simp
  ultimately show ?thesis by (auto simp: stuck_first_call stuck_second_call)
qed


lemma fold_unchanged: "(\<And>x. x \<in> set xs \<Longrightarrow> f x st = st) \<Longrightarrow> fold f xs st = st"
  by (induction xs) simp_all

lemma all_filled_cell: "all_filled st \<Longrightarrow> i < 9 \<Longrightarrow> j < 9 \<Longrightarrow> cell_value (newBoard st ! i ! j) \<noteq> None"
  unfolding all_filled_def scell_def set_all_cells by fastforce

lemma all_filled_no_candidate:
  "all_filled st \<Longrightarrow> i < 9 \<Longrightarrow> j < 9 \<Longrightarrow> \<not> has_candidate st i j num"
  using all_filled_cell [of st i j] by (simp add: has_candidate_def)

lemma nakedSingles_full: assumes "all_filled st" shows "nakedSingles st = st"
  unfolding nakedSingles_def
proof (rule fold_unchanged)
  fix x :: "nat \<times> nat" assume "x \<in> set all_cells"
  then have "cell_value (newBoard st ! fst x ! snd x) \<noteq> None"
    using all_filled_cell [OF assms, of "fst x" "snd x"] by (auto simp: set_all_cells)
  then show "(case x of (i, j) \<Rightarrow> \<lambda>st.
          if cell_value (newBoard st ! i ! j) = None
          then case candidates st (i, j) of None \<Rightarrow> st
               | Some cellCandidates \<Rightarrow>
                   if length cellCandidates = 1 then updateCell st i j (cellCandidates ! 0) else st
          else st) st = st"
    by (cases x) auto
qed

lemma hiddenRows_full: assumes "all_filled st" shows "hiddenRows st = st"
  unfolding hiddenRows_def
proof (rule fold_unchanged)
  fix x :: "nat \<times> string" assume x: "x \<in> set (List.product [0..<9] digits)"
  have "filter (\<lambda>col. has_candidate st (fst x) col num) [0..<9] = []" for num
    using x all_filled_no_candidate [OF assms, of "fst x"] by (auto simp: filter_empty_conv)
  then show "(case x of (row, num) \<Rightarrow> \<lambda>st.
          if num \<in> set (rows (solver st) ! row) then st
          else let possibleCols = filter (\<lambda>col. has_candidate st row col num) [0..<9]
               in if length possibleCols = 1 then updateCell st row (possibleCols ! 0) num
                  else st) st = st"
    by (cases x) (simp add: Let_def)
qed

lemma hiddenCols_full: assumes "all_filled st" shows "hiddenCols st = st"
  unfolding hiddenCols_def
proof (rule fold_unchanged)
  fix x :: "nat \<times> string" assume x: "x \<in> set (List.product [0..<9] digits)"
  have "filter (\<lambda>row. has_candidate st row (fst x) num) [0..<9] = []" for num
    using x all_filled_no_candidate [OF assms, of _ "fst x"] by (auto simp: filter_empty_conv)
  then show "(case x of (col, num) \<Rightarrow> \<lambda>st.
          if num \<in> set (cols (solver st) ! col) then st
          else let possibleRows = filter (\<lambda>row. has_candidate st row col num) [0..<9]
               in if length possibleRows = 1 then updateCell st (possibleRows ! 0) col num
                  else st) st = st"
    by (cases x) (simp add: Let_def)
qed

lemma square_filter_full:
  assumes "all_filled st" "k < 9"
  shows "filter (\<lambda>(r, c). has_candidate st r c num) (square_cells k) = []"
  unfolding filter_empty_conv
proof
  fix p assume "p \<in> set (square_cells k)"
  then have "fst p < 9" "snd p < 9" using square_cells_bound [OF assms(2)] by simp_all
  then show "\<not> (case p of (r, c) \<Rightarrow> has_candidate st r c num)"
    using all_filled_no_candidate [OF assms(1)] by (simp add: case_prod_beta)
qed

lemma hiddenSquares_full: assumes "all_filled st" shows "hiddenSquares st = st"
  unfolding hiddenSquares_def
proof (rule fold_unchanged)
  fix x :: "nat \<times> string" assume x: "x \<in> set (List.product [0..<9] digits)"
  then have k: "fst x < 9" by auto
  show "(case x of (squareIndex, num) \<Rightarrow> \<lambda>st.
          if num \<in> set (squares (solver st) ! squareIndex) then st
          else let startRow = squareIndex div 3 * 3; startCol = squareIndex mod 3 * 3;
                   possibleCells = filter (\<lambda>(r, c). has_candidate st r c num)
                      (List.product [startRow..<startRow + 3] [startCol..<startCol + 3])
               in if length possibleCells = 1
                  then updateCell st (fst (possibleCells ! 0)) (snd (possibleCells ! 0)) num
                  else st) st = st"
    using square_filter_full [OF assms k]
    by (cases x) (simp add: Let_def square_cells_product)
qed

lemma boxLineStep_full: assumes "all_filled st" "k < 9" shows "boxLineStep k num st = st"
  using square_filter_full [OF assms]
  by (simp add: boxLineStep_def Let_def square_cells_product new_Set_def)

lemma boxLineReduction_full: assumes "all_filled st" shows "boxLineReduction st = st"
  unfolding boxLineReduction_def
proof (rule fold_unchanged)
  fix x :: "nat \<times> string" assume x: "x \<in> set (List.product [0..<9] digits)"
  then have k: "fst x < 9" by auto
  show "(case x of (squareIndex, num) \<Rightarrow> boxLineStep squareIndex num) st = st"
    using boxLineStep_full [OF assms k] by (cases x) simp
qed

lemma round_full: "all_filled st \<Longrightarrow> propagation_round st = st"
  by (simp add: propagation_round_def nakedSingles_full hiddenRows_full hiddenCols_full
      hiddenSquares_full boxLineReduction_full)

lemma main_loop_stopped: "\<not> iterationChanges st \<Longrightarrow> main_loop n st = st"
  by (cases n) simp_all

lemma main_loop_full:
  assumes "all_filled st"
  shows "hasChanges (main_loop n st) = hasChanges st"
proof (cases n)
  case 0
  then show ?thesis by simp
next
  case (Suc m)
  have "all_filled (st\<lparr>iterationChanges := False\<rparr>)" using assms by (simp add: all_filled_def)
  then have "propagation_round (st\<lparr>iterationChanges := False\<rparr>) = st\<lparr>iterationChanges := False\<rparr>"
    by (rule round_full)
  then show ?thesis using Suc by (simp add: main_loop_stopped)
qed

lemma initializeCandidates_fields:
  "newBoard (initializeCandidates st) = newBoard st \<and>
   hasChanges (initializeCandidates st) = hasChanges st"
  unfolding initializeCandidates_def
  by (rule fold_invariant [where P = "\<lambda>s. newBoard s = newBoard st \<and> hasChanges s = hasChanges st"])
     (auto split: if_splits)

lemma autoSolveCells_full:
  assumes "wf_board b" "no_empty (boardWithSourceToSimple b)"
  shows "autoSolveCells b = b"
proof -
  have nb: "newBoard (auto_init b) = b" and hc: "\<not> hasChanges (auto_init b)"
    using initializeCandidates_fields by (simp_all add: auto_init_def)
  have "cell_value (scell b p) \<noteq> None" if "p \<in> set all_cells" for p
  proof -
    have "fst p < length b" "snd p < length (b ! fst p)"
      using that assms(1) by (auto simp: set_all_cells wf_board_length wf_board_nth)
    then show ?thesis
      using assms(2)
      by (simp add: no_empty_def boardWithSourceToSimple_def list_all_length scell_def)
  qed
  then have "all_filled (auto_init b)" by (simp add: all_filled_def nb)
  then have "\<not> hasChanges (main_loop maxIterations (auto_init b))"
    using hc by (simp add: main_loop_full)
  then show ?thesis by (simp add: autoSolveCells_def Let_def)
qed

lemma autoSolveCells_wf_frame:
  assumes "wf_board g"
  shows "wf_board (autoSolveCells g) \<and> frame g (autoSolveCells g)"
proof -
  from autoSolveCells_cases [of g] show ?thesis
  proof
    assume "autoSolveCells g = g"
    then show ?thesis using assms by (simp add: frame_refl)
  next
    assume a: "isValidBoard (boardWithSourceToSimple g) \<and>
        autoSolveCells g = newBoard (main_loop maxIterations (auto_init g))"
    then have "auto_inv g (main_loop maxIterations (auto_init g))"
      using auto_inv_final [OF assms] by simp
    then show ?thesis using a by (simp add: auto_inv_def)
  qed
qed

subsection \<open>A round that changes nothing\<close>

lemma nakedSingles_fold: "nakedSingles st = fold naked_step all_cells st"
  by (simp add: nakedSingles_def naked_step_def)

lemma hiddenRows_fold: "hiddenRows st = fold hrow_step (List.product [0..<9] digits) st"
  by (simp add: hiddenRows_def hrow_step_def)

lemma hiddenCols_fold: "hiddenCols st = fold hcol_step (List.product [0..<9] digits) st"
  by (simp add: hiddenCols_def hcol_step_def)

lemma hiddenSquares_fold: "hiddenSquares st = fold hsq_step (List.product [0..<9] digits) st"
  by (simp add: hiddenSquares_def hsq_step_def)

lemma boxLineStep_eq:
  "boxLineStep k num st =
     (if num \<in> set (squares (solver st) ! k) then st else box_cols k num (box_rows k num st))"
  unfolding boxLineStep_def Let_def box_cols_def box_rows_def rows_with_def cols_with_def
    prune_row_def prune_col_def square_cells_product ..

lemma ic_updateCell [simp]: "iterationChanges (updateCell st r c v)"
  by (simp add: updateCell_eq)

lemma fold_flag_mono:
  assumes "\<And>x s. iterationChanges s \<Longrightarrow> iterationChanges (f x s)" "iterationChanges st"
  shows "iterationChanges (fold f xs st)"
  using assms(2) by (induction xs arbitrary: st) (simp_all add: assms(1))

lemma fold_quiet:
  assumes mono: "\<And>x s. iterationChanges s \<Longrightarrow> iterationChanges (f x s)"
    and dich: "\<And>x s. f x s = s \<or> iterationChanges (f x s)"
    and "\<not> iterationChanges (fold f xs st)"
  shows "fold f xs st = st \<and> (\<forall>x\<in>set xs. f x st = st)"
  using assms(3)
proof (induction xs)
  case Nil
  then show ?case by simp
next
  case (Cons x xs)
  have "\<not> iterationChanges (f x st)"
    using Cons.prems fold_flag_mono [of f "f x st" xs] mono by auto
  then have e: "f x st = st" using dich [of x st] by auto
  then show ?case using Cons by simp
qed

lemma naked_step_mono: "iterationChanges s \<Longrightarrow> iterationChanges (naked_step x s)"
  by (cases x) (simp add: naked_step_def split: option.splits)

lemma naked_step_dich: "naked_step x s = s \<or> iterationChanges (naked_step x s)"
  by (cases x) (simp add: naked_step_def split: option.splits)

lemma hrow_step_mono: "iterationChanges s \<Longrightarrow> iterationChanges (hrow_step x s)"
  by (cases x) (simp add: hrow_step_def Let_def)

lemma hrow_step_dich: "hrow_step x s = s \<or> iterationChanges (hrow_step x s)"
  by (cases x) (simp add: hrow_step_def Let_def)

lemma hcol_step_mono: "iterationChanges s \<Longrightarrow> iterationChanges (hcol_step x s)"
  by (cases x) (simp add: hcol_step_def Let_def)

lemma hcol_step_dich: "hcol_step x s = s \<or> iterationChanges (hcol_step x s)"
  by (cases x) (simp add: hcol_step_def Let_def)

lemma hsq_step_mono: "iterationChanges s \<Longrightarrow> iterationChanges (hsq_step x s)"
  by (cases x) (simp add: hsq_step_def Let_def)

lemma hsq_step_dich: "hsq_step x s = s \<or> iterationChanges (hsq_step x s)"
  by (cases x) (simp add: hsq_step_def Let_def)

lemma removeFlagged_mono: "iterationChanges s \<Longrightarrow> iterationChanges (removeFlagged s r c num)"
  by (simp add: removeFlagged_def removeCandidate_def split: option.splits)

lemma removeFlagged_dich:
  "removeFlagged s r c num = s \<or> iterationChanges (removeFlagged s r c num)"
  by (simp add: removeFlagged_def removeCandidate_def split: option.splits)

lemma prune_row_mono: "iterationChanges s \<Longrightarrow> iterationChanges (prune_row a r num s)"
  unfolding prune_row_def by (rule fold_flag_mono) (simp_all add: removeFlagged_mono)

lemma prune_col_mono: "iterationChanges s \<Longrightarrow> iterationChanges (prune_col a c num s)"
  unfolding prune_col_def by (rule fold_flag_mono) (simp_all add: removeFlagged_mono)

lemma prune_row_quiet:
  assumes "\<not> iterationChanges (prune_row a r num s)"
  shows "prune_row a r num s = s \<and>
         (\<forall>col<9. \<not> (a \<le> col \<and> col < a + 3) \<longrightarrow> removeFlagged s r col num = s)"
proof -
  have "fold (\<lambda>col st. if a \<le> col \<and> col < a + 3 then st else removeFlagged st r col num) [0..<9] s = s \<and>
      (\<forall>x\<in>set [0..<9]. (if a \<le> x \<and> x < a + 3 then s else removeFlagged s r x num) = s)"
    by (rule fold_quiet) (use assms in \<open>auto simp: prune_row_def removeFlagged_mono removeFlagged_dich\<close>)
  then have f: "prune_row a r num s = s"
    and e: "\<And>x. x < 9 \<Longrightarrow> (if a \<le> x \<and> x < a + 3 then s else removeFlagged s r x num) = s"
    by (simp_all add: prune_row_def)
  show ?thesis using f e by (metis (full_types))
qed

lemma prune_col_quiet:
  assumes "\<not> iterationChanges (prune_col a c num s)"
  shows "prune_col a c num s = s \<and>
         (\<forall>row<9. \<not> (a \<le> row \<and> row < a + 3) \<longrightarrow> removeFlagged s row c num = s)"
proof -
  have "fold (\<lambda>row st. if a \<le> row \<and> row < a + 3 then st else removeFlagged st row c num) [0..<9] s = s \<and>
      (\<forall>x\<in>set [0..<9]. (if a \<le> x \<and> x < a + 3 then s else removeFlagged s x c num) = s)"
    by (rule fold_quiet) (use assms in \<open>auto simp: prune_col_def removeFlagged_mono removeFlagged_dich\<close>)
  then have f: "prune_col a c num s = s"
    and e: "\<And>x. x < 9 \<Longrightarrow> (if a \<le> x \<and> x < a + 3 then s else removeFlagged s x c num) = s"
    by (simp_all add: prune_col_def)
  show ?thesis using f e by (metis (full_types))
qed

lemma box_rows_mono: "iterationChanges s \<Longrightarrow> iterationChanges (box_rows k num s)"
  by (simp add: box_rows_def prune_row_mono)

lemma box_cols_mono: "iterationChanges s \<Longrightarrow> iterationChanges (box_cols k num s)"
  by (simp add: box_cols_def prune_col_mono)

lemma box_rows_dich: "box_rows k num s = s \<or> iterationChanges (box_rows k num s)"
  using prune_row_quiet [of "k mod 3 * 3" "rows_with s k num ! 0" num s]
  by (auto simp: box_rows_def)

lemma box_cols_dich: "box_cols k num s = s \<or> iterationChanges (box_cols k num s)"
  using prune_col_quiet [of "k div 3 * 3" "cols_with s k num ! 0" num s]
  by (auto simp: box_cols_def)

lemma boxLineStep_mono: "iterationChanges s \<Longrightarrow> iterationChanges (boxLineStep k num s)"
  by (simp add: boxLineStep_eq box_rows_mono box_cols_mono)

lemma boxLineStep_dich: "boxLineStep k num s = s \<or> iterationChanges (boxLineStep k num s)"
  using box_rows_dich [of k num s] box_cols_dich [of k num s] box_cols_mono [of "box_rows k num s" k num]
  by (auto simp: boxLineStep_eq)

lemma boxLineReduction_fold:
  "boxLineReduction st = fold (\<lambda>x. boxLineStep (fst x) (snd x)) (List.product [0..<9] digits) st"
proof -
  have "(\<lambda>(squareIndex, num) st. boxLineStep squareIndex num st) =
        (\<lambda>x. boxLineStep (fst x) (snd x))"
    by (simp add: fun_eq_iff)
  then show ?thesis by (simp add: boxLineReduction_def)
qed

lemma round_quiet:
  assumes "\<not> iterationChanges (propagation_round st)"
  shows "propagation_round st = st \<and> quiet st"
proof -
  let ?U = "List.product [0..<9] digits"
  let ?bl = "\<lambda>x. boxLineStep (fst x) (snd x)"
  have blm: "\<And>x s. iterationChanges s \<Longrightarrow> iterationChanges (?bl x s)"
    by (simp add: boxLineStep_mono)
  have bld: "\<And>x s. ?bl x s = s \<or> iterationChanges (?bl x s)"
    by (simp add: boxLineStep_dich)
  define s1 where "s1 = nakedSingles st"
  define s2 where "s2 = hiddenRows s1"
  define s3 where "s3 = hiddenCols s2"
  define s4 where "s4 = hiddenSquares s3"
  have r: "propagation_round st = fold ?bl ?U s4"
    by (simp add: propagation_round_def boxLineReduction_fold s1_def s2_def s3_def s4_def)
  have n5: "\<not> iterationChanges (fold ?bl ?U s4)" using assms unfolding r .
  have q5: "fold ?bl ?U s4 = s4 \<and> (\<forall>x\<in>set ?U. ?bl x s4 = s4)"
    by (rule fold_quiet [OF blm bld n5])
  then have "\<not> iterationChanges s4" using n5 by simp
  then have n4: "\<not> iterationChanges (fold hsq_step ?U s3)"
    unfolding s4_def hiddenSquares_fold .
  have q4: "fold hsq_step ?U s3 = s3 \<and> (\<forall>x\<in>set ?U. hsq_step x s3 = s3)"
    by (rule fold_quiet [OF hsq_step_mono hsq_step_dich n4])
  then have e4: "s4 = s3" by (simp add: s4_def hiddenSquares_fold)
  have "\<not> iterationChanges s3" using n4 q4 by simp
  then have n3: "\<not> iterationChanges (fold hcol_step ?U s2)"
    unfolding s3_def hiddenCols_fold .
  have q3: "fold hcol_step ?U s2 = s2 \<and> (\<forall>x\<in>set ?U. hcol_step x s2 = s2)"
    by (rule fold_quiet [OF hcol_step_mono hcol_step_dich n3])
  then have e3: "s3 = s2" by (simp add: s3_def hiddenCols_fold)
  have "\<not> iterationChanges s2" using n3 q3 by simp
  then have n2: "\<not> iterationChanges (fold hrow_step ?U s1)"
    unfolding s2_def hiddenRows_fold .
  have q2: "fold hrow_step ?U s1 = s1 \<and> (\<forall>x\<in>set ?U. hrow_step x s1 = s1)"
    by (rule fold_quiet [OF hrow_step_mono hrow_step_dich n2])
  then have e2: "s2 = s1" by (simp add: s2_def hiddenRows_fold)
  have "\<not> iterationChanges s1" using n2 q2 by simp
  then have n1: "\<not> iterationChanges (fold naked_step all_cells st)"
    unfolding s1_def nakedSingles_fold .
  have q1: "fold naked_step all_cells st = st \<and> (\<forall>x\<in>set all_cells. naked_step x st = st)"
    by (rule fold_quiet [OF naked_step_mono naked_step_dich n1])
  then have e1: "s1 = st" by (simp add: s1_def nakedSingles_fold)
  have n0: "\<not> iterationChanges st" using n1 q1 by simp
  have all: "s4 = st" "s3 = st" "s2 = st" using e1 e2 e3 e4 by simp_all
  have "propagation_round st = st" using r q5 all by simp
  moreover have "quiet st"
    unfolding quiet_def using n0 q1 q2 q3 q4 q5 all e1 by simp
  ultimately show ?thesis by simp
qed

lemma digits_distinct: "distinct digits" and digits_length: "length digits = 9"
  by (simp_all add: digits_def)

lemma unit_has_digit:
  assumes "complete S" "is_unit us" "d \<in> set digits"
  shows "\<exists>p\<in>set us. cell_at S p = Some d"
proof -
  let ?f = "\<lambda>p. the (cell_at S p)"
  have dg: "\<And>p. p \<in> set us \<Longrightarrow> \<exists>d\<in>set digits. cell_at S p = Some d"
    using assms(1,2) unfolding complete_def is_unit_def by blast
  have cf: "conflict_free_on (set all_cells) S" using assms(1) by (simp add: complete_def)
  have "inj_on ?f (set us)"
  proof (rule inj_onI)
    fix p q assume pq: "p \<in> set us" "q \<in> set us" and e: "?f p = ?f q"
    obtain dp dq where c: "cell_at S p = Some dp" "cell_at S q = Some dq"
      using dg pq by blast
    have r: "related p q" and pa: "p \<in> set all_cells" and qa: "q \<in> set all_cells"
      using assms(2) pq unfolding is_unit_def by auto
    have "dp = dq" using e c by simp
    then have "cell_at S q = Some dp" using c by simp
    then show "p = q" by (rule conflict_free_onD [OF cf pa qa c(1) _ r])
  qed
  then have "card (?f ` set us) = 9"
    using assms(2) by (simp add: card_image is_unit_def distinct_card)
  moreover have "?f ` set us \<subseteq> set digits" using dg by fastforce
  moreover have "card (set digits) = 9"
    using digits_distinct digits_length by (simp add: distinct_card)
  ultimately have "?f ` set us = set digits"
    by (intro card_subset_eq) simp_all
  then have "d \<in> ?f ` set us" using assms(3) by simp
  then obtain p where p: "p \<in> set us" "?f p = d" by (auto simp: image_iff)
  then show ?thesis using dg [OF p(1)] by auto
qed

lemma is_unit_row: "r < 9 \<Longrightarrow> is_unit (map (\<lambda>j. (r, j)) [0..<9])"
  by (auto simp: is_unit_def distinct_map inj_on_def set_all_cells related_def)

lemma is_unit_col: "c < 9 \<Longrightarrow> is_unit (map (\<lambda>i. (i, c)) [0..<9])"
  by (auto simp: is_unit_def distinct_map inj_on_def set_all_cells related_def)

lemma is_unit_square: assumes "k < 9" shows "is_unit (square_cells k)"
proof -
  have "length (square_cells k) = 9" by (simp add: square_cells_def)
  moreover have "set (square_cells k) \<subseteq> set all_cells"
    unfolding set_square_cells [OF assms] set_all_cells by auto
  moreover have "\<forall>p\<in>set (square_cells k). \<forall>q\<in>set (square_cells k). related p q"
    unfolding set_square_cells [OF assms] related_def by auto
  ultimately show ?thesis using distinct_square_cells by (simp add: is_unit_def)
qed

lemma has_candidate_iff:
  "has_candidate st i j d \<longleftrightarrow>
     cell_value (scell (newBoard st) (i, j)) = None \<and> (\<exists>cc. candidates st (i, j) = Some cc \<and> d \<in> set cc)"
  by (auto simp: has_candidate_def scell_def split: option.splits)

lemma hidden_exists:
  assumes "complete S" "auto_inv g st" "sol_inv S st" "is_unit us" "d \<in> set digits"
    and "\<forall>p\<in>set us. cell_at (boardWithSourceToSimple (newBoard st)) p \<noteq> Some d"
  shows "\<exists>p\<in>set us. cell_at S p = Some d \<and> has_candidate st (fst p) (snd p) d"
proof -
  obtain p where p: "p \<in> set us" "cell_at S p = Some d"
    using unit_has_digit [OF assms(1,4,5)] by blast
  have pa: "p \<in> set all_cells" using assms(4) p(1) by (auto simp: is_unit_def)
  have w: "wf_board (newBoard st)" using assms(2) by (simp add: auto_inv_def)
  have "cell_value (scell (newBoard st) p) \<noteq> Some d"
    using assms(6) p(1) cell_at_values [OF w pa] by auto
  then have "cell_value (scell (newBoard st) p) = None"
    using assms(3) pa p(2) unfolding sol_inv_def by (metis option.exhaust option.inject)
  moreover from this obtain cc where "candidates st p = Some cc" "d \<in> set cc"
    using assms(3) pa p(2) unfolding sol_inv_def by blast
  ultimately have "has_candidate st (fst p) (snd p) d"
    by (auto simp: has_candidate_iff)
  then show ?thesis using p by blast
qed

lemma pruned_related:
  assumes "r < 9" "c < 9" "p \<in> set (pruned_cells r c)"
  shows "related (r, c) p"
proof -
  have k: "getSquareIndex r c < 9" using assms(1,2) by (rule square_index_lt)
  from assms(3) consider "fst p = r" | "snd p = c" | "p \<in> set (square_cells (getSquareIndex r c))"
    by (auto simp: pruned_cells_def)
  then show ?thesis
  proof cases
    case 3
    then show ?thesis unfolding set_square_cells [OF k] related_def by auto
  qed (auto simp: related_def)
qed

lemma distinct_set_delete: "distinct cc \<Longrightarrow> distinct (set_delete v cc)"
  by (simp add: set_delete_def distinct_removeAll)

lemma sol_inv_flags [simp]:
  "sol_inv S (st\<lparr>iterationChanges := x\<rparr>) = sol_inv S st"
  "sol_inv S (st\<lparr>hasChanges := y\<rparr>) = sol_inv S st"
  by (simp_all add: sol_inv_def)

lemma sol_inv_removeCandidate:
  assumes "sol_inv S st" "cell_at S (r, c) \<noteq> Some num"
  shows "sol_inv S (snd (removeCandidate st r c num))"
  unfolding sol_inv_def removeCandidate_snd
proof (intro ballI conjI allI impI)
  fix p v assume "p \<in> set all_cells"
    "cell_value (scell (newBoard (st\<lparr>candidates := (candidates st)((r, c) :=
        map_option (set_delete num) (candidates st (r, c)))\<rparr>)) p) = Some v"
  then show "cell_at S p = Some v" using assms(1) unfolding sol_inv_def by simp
next
  fix p assume p: "p \<in> set all_cells"
    and e: "cell_value (scell (newBoard (st\<lparr>candidates := (candidates st)((r, c) :=
        map_option (set_delete num) (candidates st (r, c)))\<rparr>)) p) = None"
  then obtain cc where cc: "candidates st p = Some cc" "distinct cc" "set cc \<subseteq> set digits"
    "\<forall>d. cell_at S p = Some d \<longrightarrow> d \<in> set cc"
    using assms(1) unfolding sol_inv_def by auto
  show "\<exists>cc. candidates (st\<lparr>candidates := (candidates st)((r, c) :=
        map_option (set_delete num) (candidates st (r, c)))\<rparr>) p = Some cc \<and>
        distinct cc \<and> set cc \<subseteq> set digits \<and> (\<forall>d. cell_at S p = Some d \<longrightarrow> d \<in> set cc)"
  proof (cases "p = (r, c)")
    case True
    then show ?thesis
      using cc assms(2) by (intro exI [of _ "set_delete num cc"]) (auto simp: distinct_set_delete)
  next
    case False
    then show ?thesis using cc by (intro exI [of _ cc]) simp
  qed
qed

lemma sol_inv_removeFlagged:
  assumes "sol_inv S st" "cell_at S (r, c) \<noteq> Some num"
  shows "sol_inv S (removeFlagged st r c num)"
  using sol_inv_removeCandidate [OF assms] assms(1)
  by (cases "removeCandidate st r c num") (auto simp: removeFlagged_def split: bool.splits)

lemma sol_inv_updateCell:
  assumes "complete S" "auto_inv g st" "sol_inv S st" "r < 9" "c < 9"
    and "cell_at S (r, c) = Some v"
  shows "sol_inv S (updateCell st r c v)"
proof -
  have w: "wf_board (newBoard st)" using assms(2) by (simp add: auto_inv_def)
  have cf: "conflict_free_on (set all_cells) S" using assms(1) by (simp add: complete_def)
  have rc: "(r, c) \<in> set all_cells" using assms(4,5) by (simp add: set_all_cells)
  define cm' where "cm' = (\<lambda>p. if p \<in> set (pruned_cells r c)
                            then map_option (set_delete v) (((candidates st)((r, c) := None)) p)
                            else ((candidates st)((r, c) := None)) p)"
  have nb: "\<And>p. scell (newBoard (updateCell st r c v)) p =
      (if p = (r, c) then \<lparr>cell_value = Some v, cell_source = Some System\<rparr>
       else scell (newBoard st) p)"
    by (simp add: updateCell_eq scell_update [OF w assms(4,5)])
  have cm: "candidates (updateCell st r c v) = cm'"
    by (simp add: updateCell_eq cm'_def)
  show ?thesis
    unfolding sol_inv_def nb cm
  proof (intro ballI conjI allI impI)
    fix p v' assume "p \<in> set all_cells"
      "cell_value (if p = (r, c) then \<lparr>cell_value = Some v, cell_source = Some System\<rparr>
         else scell (newBoard st) p) = Some v'"
    then show "cell_at S p = Some v'"
      using assms(3,6) unfolding sol_inv_def by (auto split: if_splits)
  next
    fix p assume p: "p \<in> set all_cells"
      and e: "cell_value (if p = (r, c) then \<lparr>cell_value = Some v, cell_source = Some System\<rparr>
         else scell (newBoard st) p) = None"
    then have ne: "p \<noteq> (r, c)" and e': "cell_value (scell (newBoard st) p) = None"
      by (auto split: if_splits)
    obtain cc where cc: "candidates st p = Some cc" "distinct cc" "set cc \<subseteq> set digits"
      "\<forall>d. cell_at S p = Some d \<longrightarrow> d \<in> set cc"
      using assms(3) p e' unfolding sol_inv_def by auto
    show "\<exists>cc. cm' p = Some cc \<and> distinct cc \<and> set cc \<subseteq> set digits \<and>
        (\<forall>d. cell_at S p = Some d \<longrightarrow> d \<in> set cc)"
    proof (cases "p \<in> set (pruned_cells r c)")
      case True
      have "related (r, c) p" by (rule pruned_related [OF assms(4,5) True])
      then have "cell_at S p \<noteq> Some v"
        using conflict_free_onD [OF cf rc p assms(6)] ne by auto
      then show ?thesis
        using cc ne True
        by (intro exI [of _ "set_delete v cc"]) (auto simp: cm'_def distinct_set_delete)
    next
      case False
      then show ?thesis using cc ne by (intro exI [of _ cc]) (simp add: cm'_def)
    qed
  qed
qed

lemma single_list: "length xs = 1 \<Longrightarrow> set xs = {xs ! 0}"
  by (cases xs) simp_all

lemma seen_rowD:
  assumes "auto_inv g st" "row < 9" "num \<notin> set (rows (solver st) ! row)"
  shows "\<forall>p\<in>set (map (\<lambda>j. (row, j)) [0..<9]).
           cell_at (boardWithSourceToSimple (newBoard st)) p \<noteq> Some num"
proof
  fix p assume p: "p \<in> set (map (\<lambda>j. (row, j)) [0..<9])"
  then have "p \<in> set all_cells" "fst p = row" using assms(2) by (auto simp: set_all_cells)
  moreover have "set (rows (solver st) ! row) =
      {v. \<exists>p\<in>set all_cells. fst p = row \<and> cell_at (boardWithSourceToSimple (newBoard st)) p = Some v}"
    using assms(1,2) by (simp add: auto_inv_def seen_def)
  ultimately show "cell_at (boardWithSourceToSimple (newBoard st)) p \<noteq> Some num"
    using assms(3) by blast
qed

lemma seen_colD:
  assumes "auto_inv g st" "col < 9" "num \<notin> set (cols (solver st) ! col)"
  shows "\<forall>p\<in>set (map (\<lambda>i. (i, col)) [0..<9]).
           cell_at (boardWithSourceToSimple (newBoard st)) p \<noteq> Some num"
proof
  fix p assume p: "p \<in> set (map (\<lambda>i. (i, col)) [0..<9])"
  then have "p \<in> set all_cells" "snd p = col" using assms(2) by (auto simp: set_all_cells)
  moreover have "set (cols (solver st) ! col) =
      {v. \<exists>p\<in>set all_cells. snd p = col \<and> cell_at (boardWithSourceToSimple (newBoard st)) p = Some v}"
    using assms(1,2) by (simp add: auto_inv_def seen_def)
  ultimately show "cell_at (boardWithSourceToSimple (newBoard st)) p \<noteq> Some num"
    using assms(3) by blast
qed

lemma seen_squareD:
  assumes "auto_inv g st" "k < 9" "num \<notin> set (squares (solver st) ! k)"
  shows "\<forall>p\<in>set (square_cells k).
           cell_at (boardWithSourceToSimple (newBoard st)) p \<noteq> Some num"
proof
  fix p assume p: "p \<in> set (square_cells k)"
  then have "p \<in> set all_cells" "getSquareIndex (fst p) (snd p) = k"
    unfolding set_square_cells [OF assms(2)] set_all_cells by auto
  moreover have "set (squares (solver st) ! k) =
      {v. \<exists>p\<in>set all_cells. getSquareIndex (fst p) (snd p) = k \<and>
           cell_at (boardWithSourceToSimple (newBoard st)) p = Some v}"
    using assms(1,2) by (simp add: auto_inv_def seen_def)
  ultimately show "cell_at (boardWithSourceToSimple (newBoard st)) p \<noteq> Some num"
    using assms(3) by blast
qed

lemma good_updateCell:
  assumes "good g S st" "r < 9" "c < 9" "has_candidate st r c v" "cell_at S (r, c) = Some v"
  shows "good g S (updateCell st r c v)"
  using assms auto_inv_fill_candidate [of g st r c v] sol_inv_updateCell [of S g st r c v]
  by (simp add: good_def)

lemma good_naked_step:
  assumes "good g S st" "x \<in> set all_cells"
  shows "good g S (naked_step x st)"
proof -
  obtain i j where x: "x = (i, j)" by (cases x)
  have b: "i < 9" "j < 9" using assms(2) x by (simp_all add: set_all_cells)
  show ?thesis
  proof (cases "cell_value (newBoard st ! i ! j) = None \<and>
      (\<exists>cc. candidates st (i, j) = Some cc \<and> length cc = 1)")
    case False
    then show ?thesis using assms(1) x by (auto simp: naked_step_def split: option.splits)
  next
    case True
    then obtain cc where cc: "candidates st (i, j) = Some cc" "length cc = 1"
      and e: "cell_value (newBoard st ! i ! j) = None" by blast
    have s: "set cc = {cc ! 0}" by (rule single_list [OF cc(2)])
    obtain d where d: "cell_at S (i, j) = Some d"
      using assms unfolding good_def complete_def x by blast
    have "d \<in> set cc"
      using assms d e cc(1) unfolding good_def sol_inv_def x scell_def by fastforce
    then have sv: "cell_at S (i, j) = Some (cc ! 0)" using s d by simp
    have hc: "has_candidate st i j (cc ! 0)" using e cc(1) s by (simp add: has_candidate_def)
    have "good g S (updateCell st i j (cc ! 0))"
      by (rule good_updateCell [OF assms(1) b hc sv])
    then show ?thesis using e cc x by (simp add: naked_step_def)
  qed
qed

lemma hidden_single_cell:
  assumes "good g S st" "is_unit us" "num \<in> set digits"
    and "\<forall>p\<in>set us. cell_at (boardWithSourceToSimple (newBoard st)) p \<noteq> Some num"
    and "length (filter (\<lambda>p. has_candidate st (fst p) (snd p) num) us) = 1"
  shows "cell_at S (filter (\<lambda>p. has_candidate st (fst p) (snd p) num) us ! 0) = Some num"
proof -
  let ?pc = "filter (\<lambda>p. has_candidate st (fst p) (snd p) num) us"
  obtain p where p: "p \<in> set us" "cell_at S p = Some num" "has_candidate st (fst p) (snd p) num"
    using hidden_exists [of S g st us num] assms(1-4) unfolding good_def by blast
  then have "p \<in> set ?pc" by simp
  moreover have "set ?pc = {?pc ! 0}" by (rule single_list [OF assms(5)])
  ultimately have "p = ?pc ! 0" by blast
  then show ?thesis using p(2) by simp
qed

lemma filter_row_cells:
  "filter (\<lambda>p. P (fst p) (snd p)) (map (\<lambda>j. (r, j)) xs) = map (\<lambda>j. (r, j)) (filter (P r) xs)"
  by (induction xs) simp_all

lemma filter_col_cells:
  "filter (\<lambda>p. P (fst p) (snd p)) (map (\<lambda>i. (i, c)) xs) = map (\<lambda>i. (i, c)) (filter (\<lambda>i. P i c) xs)"
  by (induction xs) simp_all

lemma good_hrow_step:
  assumes "good g S st" "x \<in> set (List.product [0..<9] digits)"
  shows "good g S (hrow_step x st)"
proof -
  obtain row num where x: "x = (row, num)" by (cases x)
  have b: "row < 9" "num \<in> set digits" using assms(2) x by simp_all
  let ?pc = "filter (\<lambda>col. has_candidate st row col num) [0..<9]"
  show ?thesis
  proof (cases "num \<notin> set (rows (solver st) ! row) \<and> length ?pc = 1")
    case False
    then show ?thesis using assms(1) x by (auto simp: hrow_step_def Let_def)
  next
    case True
    have ai: "auto_inv g st" using assms(1) by (simp add: good_def)
    have m: "?pc ! 0 \<in> set [0..<9]" "has_candidate st row (?pc ! 0) num"
      using single_filter_mem [of "\<lambda>col. has_candidate st row col num" "[0..<9]"] True by simp_all
    have f: "filter (\<lambda>p. has_candidate st (fst p) (snd p) num) (map (\<lambda>j. (row, j)) [0..<9]) =
        map (\<lambda>j. (row, j)) ?pc"
      by (rule filter_row_cells)
    have "cell_at S (map (\<lambda>j. (row, j)) ?pc ! 0) = Some num"
      using hidden_single_cell [OF assms(1) is_unit_row [OF b(1)] b(2) seen_rowD [OF ai b(1)]]
        True unfolding f by simp
    then have sv: "cell_at S (row, ?pc ! 0) = Some num" using True by simp
    have "good g S (updateCell st row (?pc ! 0) num)"
      by (rule good_updateCell [OF assms(1) b(1) _ m(2) sv]) (use m(1) in simp)
    then show ?thesis using True x by (simp add: hrow_step_def Let_def)
  qed
qed

lemma good_hcol_step:
  assumes "good g S st" "x \<in> set (List.product [0..<9] digits)"
  shows "good g S (hcol_step x st)"
proof -
  obtain col num where x: "x = (col, num)" by (cases x)
  have b: "col < 9" "num \<in> set digits" using assms(2) x by simp_all
  let ?pr = "filter (\<lambda>row. has_candidate st row col num) [0..<9]"
  show ?thesis
  proof (cases "num \<notin> set (cols (solver st) ! col) \<and> length ?pr = 1")
    case False
    then show ?thesis using assms(1) x by (auto simp: hcol_step_def Let_def)
  next
    case True
    have ai: "auto_inv g st" using assms(1) by (simp add: good_def)
    have m: "?pr ! 0 \<in> set [0..<9]" "has_candidate st (?pr ! 0) col num"
      using single_filter_mem [of "\<lambda>row. has_candidate st row col num" "[0..<9]"] True by simp_all
    have f: "filter (\<lambda>p. has_candidate st (fst p) (snd p) num) (map (\<lambda>i. (i, col)) [0..<9]) =
        map (\<lambda>i. (i, col)) ?pr"
      by (rule filter_col_cells)
    have "cell_at S (map (\<lambda>i. (i, col)) ?pr ! 0) = Some num"
      using hidden_single_cell [OF assms(1) is_unit_col [OF b(1)] b(2) seen_colD [OF ai b(1)]]
        True unfolding f by simp
    then have sv: "cell_at S (?pr ! 0, col) = Some num" using True by simp
    have "good g S (updateCell st (?pr ! 0) col num)"
      by (rule good_updateCell [OF assms(1) _ b(1) m(2) sv]) (use m(1) in simp)
    then show ?thesis using True x by (simp add: hcol_step_def Let_def)
  qed
qed

lemma good_hsq_step:
  assumes "good g S st" "x \<in> set (List.product [0..<9] digits)"
  shows "good g S (hsq_step x st)"
proof -
  obtain k num where x: "x = (k, num)" by (cases x)
  have b: "k < 9" "num \<in> set digits" using assms(2) x by simp_all
  let ?pc = "filter (\<lambda>(r, c). has_candidate st r c num) (square_cells k)"
  have pc: "?pc = filter (\<lambda>p. has_candidate st (fst p) (snd p) num) (square_cells k)"
    by (simp add: split_def)
  show ?thesis
  proof (cases "num \<notin> set (squares (solver st) ! k) \<and> length ?pc = 1")
    case False
    then show ?thesis
      using assms(1) x by (auto simp: hsq_step_def Let_def square_cells_product)
  next
    case True
    have ai: "auto_inv g st" using assms(1) by (simp add: good_def)
    have m: "?pc ! 0 \<in> set (square_cells k)" "has_candidate st (fst (?pc ! 0)) (snd (?pc ! 0)) num"
      using single_filter_mem [of "\<lambda>p. has_candidate st (fst p) (snd p) num" "square_cells k"] True
      unfolding pc by simp_all
    have sv: "cell_at S (fst (?pc ! 0), snd (?pc ! 0)) = Some num"
      using hidden_single_cell [OF assms(1) is_unit_square [OF b(1)] b(2) seen_squareD [OF ai b(1)]]
        True unfolding pc by simp
    have bd: "fst (?pc ! 0) < 9" "snd (?pc ! 0) < 9"
      using square_cells_bound [OF b(1) m(1)] by simp_all
    have "good g S (updateCell st (fst (?pc ! 0)) (snd (?pc ! 0)) num)"
      by (rule good_updateCell [OF assms(1) bd m(2) sv])
    then show ?thesis using True x by (simp add: hsq_step_def Let_def square_cells_product)
  qed
qed

lemma set_rows_with:
  "set (rows_with st k num) = fst ` {p \<in> set (square_cells k). has_candidate st (fst p) (snd p) num}"
  by (auto simp: rows_with_def split_def)

lemma set_cols_with:
  "set (cols_with st k num) = snd ` {p \<in> set (square_cells k). has_candidate st (fst p) (snd p) num}"
  by (auto simp: cols_with_def split_def)

lemma square_cells_range:
  assumes "p \<in> set (square_cells k)"
  shows "k div 3 * 3 \<le> fst p \<and> fst p < k div 3 * 3 + 3 \<and> k mod 3 * 3 \<le> snd p \<and> snd p < k mod 3 * 3 + 3"
proof -
  have "set (square_cells k) =
      {k div 3 * 3..<k div 3 * 3 + 3} \<times> {k mod 3 * 3..<k mod 3 * 3 + 3}"
    by (simp add: square_cells_def)
  then have "p \<in> {k div 3 * 3..<k div 3 * 3 + 3} \<times> {k mod 3 * 3..<k mod 3 * 3 + 3}"
    using assms by simp
  then show ?thesis by (cases p) simp
qed

lemma good_prune_row:
  assumes "good g S st" "\<forall>col<9. \<not> (a \<le> col \<and> col < a + 3) \<longrightarrow> cell_at S (r, col) \<noteq> Some num"
  shows "good g S (prune_row a r num st)"
  unfolding prune_row_def
proof (rule fold_invariant [where P = "good g S"])
  show "good g S st" by (rule assms(1))
next
  fix x s assume x: "x \<in> set [0..<9]" and s: "good g S s"
  show "good g S (if a \<le> x \<and> x < a + 3 then s else removeFlagged s r x num)"
  proof (cases "a \<le> x \<and> x < a + 3")
    case True
    then show ?thesis using s by simp
  next
    case False
    then have "cell_at S (r, x) \<noteq> Some num" using assms(2) x by simp
    then show ?thesis
      using s False auto_inv_removeFlagged [of g s r x num] sol_inv_removeFlagged [of S s r x num]
      by (simp add: good_def)
  qed
qed

lemma good_prune_col:
  assumes "good g S st" "\<forall>row<9. \<not> (a \<le> row \<and> row < a + 3) \<longrightarrow> cell_at S (row, c) \<noteq> Some num"
  shows "good g S (prune_col a c num st)"
  unfolding prune_col_def
proof (rule fold_invariant [where P = "good g S"])
  show "good g S st" by (rule assms(1))
next
  fix x s assume x: "x \<in> set [0..<9]" and s: "good g S s"
  show "good g S (if a \<le> x \<and> x < a + 3 then s else removeFlagged s x c num)"
  proof (cases "a \<le> x \<and> x < a + 3")
    case True
    then show ?thesis using s by simp
  next
    case False
    then have "cell_at S (x, c) \<noteq> Some num" using assms(2) x by simp
    then show ?thesis
      using s False auto_inv_removeFlagged [of g s x c num] sol_inv_removeFlagged [of S s x c num]
      by (simp add: good_def)
  qed
qed

text \<open>Where the completion puts a symbol that is still missing in a square.\<close>

lemma square_solution_cell:
  assumes "good g S st" "k < 9" "num \<in> set digits" "num \<notin> set (squares (solver st) ! k)"
  shows "\<exists>p\<in>set (square_cells k). cell_at S p = Some num \<and> has_candidate st (fst p) (snd p) num"
proof -
  have ai: "auto_inv g st" using assms(1) by (simp add: good_def)
  show ?thesis
    using hidden_exists [of S g st "square_cells k" num] assms(1,3)
      is_unit_square [OF assms(2)] seen_squareD [OF ai assms(2,4)]
    unfolding good_def by blast
qed

lemma solution_unique_in_unit:
  assumes "complete S" "p \<in> set all_cells" "q \<in> set all_cells" "related p q" "p \<noteq> q"
    "cell_at S p = Some num"
  shows "cell_at S q \<noteq> Some num"
  using assms conflict_free_onD [of "set all_cells" S p q num] unfolding complete_def by blast

lemma good_box_rows:
  assumes "good g S st" "k < 9" "num \<in> set digits" "num \<notin> set (squares (solver st) ! k)"
  shows "good g S (box_rows k num st)"
proof (cases "length (rows_with st k num) = 1")
  case False
  then show ?thesis using assms(1) by (simp add: box_rows_def)
next
  case True
  let ?r = "rows_with st k num ! 0"
  obtain p where p: "p \<in> set (square_cells k)" "cell_at S p = Some num"
      "has_candidate st (fst p) (snd p) num"
    using square_solution_cell [OF assms] by blast
  have "fst p \<in> set (rows_with st k num)" using p(1,3) unfolding set_rows_with by blast
  then have r: "fst p = ?r" using single_list [OF True] by simp
  have pa: "p \<in> set all_cells" using is_unit_square [OF assms(2)] p(1) by (auto simp: is_unit_def)
  have cS: "complete S" using assms(1) by (simp add: good_def)
  have "cell_at S (?r, col) \<noteq> Some num" if "col < 9" "\<not> (k mod 3 * 3 \<le> col \<and> col < k mod 3 * 3 + 3)" for col
  proof (rule solution_unique_in_unit [OF cS pa _ _ _ p(2)])
    show "(?r, col) \<in> set all_cells" using pa r that(1) by (auto simp: set_all_cells)
    show "related p (?r, col)" using r by (simp add: related_def)
    show "p \<noteq> (?r, col)" using square_cells_range [OF p(1)] that(2) by auto
  qed
  then have "good g S (prune_row (k mod 3 * 3) ?r num st)"
    by (intro good_prune_row [OF assms(1)]) simp
  then show ?thesis using True by (simp add: box_rows_def)
qed

lemma good_box_cols:
  assumes "good g S st" "k < 9" "num \<in> set digits" "num \<notin> set (squares (solver st) ! k)"
  shows "good g S (box_cols k num st)"
proof (cases "length (cols_with st k num) = 1")
  case False
  then show ?thesis using assms(1) by (simp add: box_cols_def)
next
  case True
  let ?c = "cols_with st k num ! 0"
  obtain p where p: "p \<in> set (square_cells k)" "cell_at S p = Some num"
      "has_candidate st (fst p) (snd p) num"
    using square_solution_cell [OF assms] by blast
  have "snd p \<in> set (cols_with st k num)" using p(1,3) unfolding set_cols_with by blast
  then have c: "snd p = ?c" using single_list [OF True] by simp
  have pa: "p \<in> set all_cells" using is_unit_square [OF assms(2)] p(1) by (auto simp: is_unit_def)
  have cS: "complete S" using assms(1) by (simp add: good_def)
  have "cell_at S (row, ?c) \<noteq> Some num" if "row < 9" "\<not> (k div 3 * 3 \<le> row \<and> row < k div 3 * 3 + 3)" for row
  proof (rule solution_unique_in_unit [OF cS pa _ _ _ p(2)])
    show "(row, ?c) \<in> set all_cells" using pa c that(1) by (auto simp: set_all_cells)
    show "related p (row, ?c)" using c by (simp add: related_def)
    show "p \<noteq> (row, ?c)" using square_cells_range [OF p(1)] that(2) by auto
  qed
  then have "good g S (prune_col (k div 3 * 3) ?c num st)"
    by (intro good_prune_col [OF assms(1)]) simp
  then show ?thesis using True by (simp add: box_cols_def)
qed

lemma removeFlagged_solver [simp]: "solver (removeFlagged st r c num) = solver st"
  by (simp add: removeFlagged_def removeCandidate_def split: option.splits)

lemma prune_row_solver [simp]: "solver (prune_row a r num st) = solver st"
  unfolding prune_row_def
  by (rule fold_invariant [where P = "\<lambda>s. solver s = solver st"]) simp_all

lemma box_rows_solver [simp]: "solver (box_rows k num st) = solver st"
  by (simp add: box_rows_def)

lemma good_boxLineStep:
  assumes "good g S st" "k < 9" "num \<in> set digits"
  shows "good g S (boxLineStep k num st)"
proof (cases "num \<in> set (squares (solver st) ! k)")
  case True
  then show ?thesis using assms(1) by (simp add: boxLineStep_eq)
next
  case False
  have "good g S (box_rows k num st)" by (rule good_box_rows [OF assms False])
  then have "good g S (box_cols k num (box_rows k num st))"
    by (rule good_box_cols [OF _ assms(2,3)]) (use False in simp)
  then show ?thesis using False by (simp add: boxLineStep_eq)
qed

lemma good_round: assumes "good g S st" shows "good g S (propagation_round st)"
proof -
  let ?U = "List.product [0..<9] digits"
  have 1: "good g S (nakedSingles st)"
    unfolding nakedSingles_fold
    by (rule fold_invariant [where P = "good g S"]) (simp_all add: assms good_naked_step)
  have 2: "good g S (hiddenRows (nakedSingles st))"
    unfolding hiddenRows_fold
    by (rule fold_invariant [where P = "good g S", OF 1]) (rule good_hrow_step)
  have 3: "good g S (hiddenCols (hiddenRows (nakedSingles st)))"
    unfolding hiddenCols_fold
    by (rule fold_invariant [where P = "good g S", OF 2]) (rule good_hcol_step)
  have 4: "good g S (hiddenSquares (hiddenCols (hiddenRows (nakedSingles st))))"
    unfolding hiddenSquares_fold
    by (rule fold_invariant [where P = "good g S", OF 3]) (rule good_hsq_step)
  have "good g S (boxLineReduction (hiddenSquares (hiddenCols (hiddenRows (nakedSingles st)))))"
    unfolding boxLineReduction_fold
  proof (rule fold_invariant [where P = "good g S", OF 4])
    fix x s assume "x \<in> set ?U" "good g S s"
    then show "good g S (boxLineStep (fst x) (snd x) s)"
      by (intro good_boxLineStep) auto
  qed
  then show ?thesis by (simp add: propagation_round_def)
qed

lemma good_flag [simp]: "good g S (st\<lparr>iterationChanges := x\<rparr>) = good g S st"
  by (simp add: good_def)

lemma good_main_loop: "good g S st \<Longrightarrow> good g S (main_loop n st)"
proof (induction n arbitrary: st)
  case 0
  then show ?case by simp
next
  case (Suc n)
  have "good g S (propagation_round (st\<lparr>iterationChanges := False\<rparr>))"
    using Suc.prems by (intro good_round) simp
  then show ?case using Suc.IH Suc.prems by simp
qed

lemma distinct_new_Set: "distinct (new_Set xs)"
proof -
  have "distinct acc \<Longrightarrow> distinct (fold set_add xs acc)" for acc :: "'a list"
    by (induction xs arbitrary: acc) (simp_all add: set_add_def)
  then show ?thesis by (simp add: new_Set_def)
qed

lemma initializeCandidates_fold:
  "solver (fold (\<lambda>(i, j) st.
             if cell_value (newBoard st ! i ! j) = None
             then st\<lparr>candidates := (candidates st)((i, j) \<mapsto> new_Set (getValidNumbers (solver st) i j))\<rparr>
             else st) xs st) = solver st \<and>
   newBoard (fold (\<lambda>(i, j) st.
             if cell_value (newBoard st ! i ! j) = None
             then st\<lparr>candidates := (candidates st)((i, j) \<mapsto> new_Set (getValidNumbers (solver st) i j))\<rparr>
             else st) xs st) = newBoard st \<and>
   iterationChanges (fold (\<lambda>(i, j) st.
             if cell_value (newBoard st ! i ! j) = None
             then st\<lparr>candidates := (candidates st)((i, j) \<mapsto> new_Set (getValidNumbers (solver st) i j))\<rparr>
             else st) xs st) = iterationChanges st \<and>
   (\<forall>p. candidates (fold (\<lambda>(i, j) st.
             if cell_value (newBoard st ! i ! j) = None
             then st\<lparr>candidates := (candidates st)((i, j) \<mapsto> new_Set (getValidNumbers (solver st) i j))\<rparr>
             else st) xs st) p =
        (if p \<in> set xs \<and> cell_value (scell (newBoard st) p) = None
         then Some (new_Set (getValidNumbers (solver st) (fst p) (snd p)))
         else candidates st p))"
proof (induction xs arbitrary: st)
  case Nil
  then show ?case by simp
next
  case (Cons x xs)
  obtain i j where x: "x = (i, j)" by (cases x)
  show ?case
  proof (cases "cell_value (newBoard st ! i ! j) = None")
    case True
    show ?thesis
      unfolding x fold_simps
      using Cons.IH [of "st\<lparr>candidates := (candidates st)((i, j) \<mapsto>
          new_Set (getValidNumbers (solver st) i j))\<rparr>"] True
      by (auto simp: scell_def)
  next
    case False
    show ?thesis
      unfolding x fold_simps using Cons.IH [of st] False by (auto simp: scell_def)
  qed
qed

lemma auto_init_fields:
  "newBoard (auto_init g) = g" "solver (auto_init g) = constructor (boardWithSourceToSimple g)"
  "iterationChanges (auto_init g)"
  "candidates (auto_init g) p =
     (if p \<in> set all_cells \<and> cell_value (scell g p) = None
      then Some (new_Set (getValidNumbers (constructor (boardWithSourceToSimple g)) (fst p) (snd p)))
      else None)"
proof -
  define r0 where "r0 = \<lparr>solver = constructor (boardWithSourceToSimple g),
        newBoard = g, candidates = Map.empty, hasChanges = False, iterationChanges = True\<rparr>"
  let ?f = "\<lambda>(i, j) st.
             if cell_value (newBoard st ! i ! j) = None
             then st\<lparr>candidates := (candidates st)((i, j) \<mapsto> new_Set (getValidNumbers (solver st) i j))\<rparr>
             else st"
  have e: "auto_init g = fold ?f all_cells r0"
    by (simp add: auto_init_def initializeCandidates_def r0_def)
  have f: "solver (fold ?f all_cells r0) = solver r0"
    "newBoard (fold ?f all_cells r0) = newBoard r0"
    "iterationChanges (fold ?f all_cells r0) = iterationChanges r0"
    "\<And>p. candidates (fold ?f all_cells r0) p =
        (if p \<in> set all_cells \<and> cell_value (scell (newBoard r0) p) = None
         then Some (new_Set (getValidNumbers (solver r0) (fst p) (snd p)))
         else candidates r0 p)"
    using initializeCandidates_fold [of all_cells r0] by blast+
  show "newBoard (auto_init g) = g" unfolding e f by (simp add: r0_def)
  show "solver (auto_init g) = constructor (boardWithSourceToSimple g)"
    unfolding e f by (simp add: r0_def)
  show "iterationChanges (auto_init g)" unfolding e f by (simp add: r0_def)
  show "candidates (auto_init g) p =
     (if p \<in> set all_cells \<and> cell_value (scell g p) = None
      then Some (new_Set (getValidNumbers (constructor (boardWithSourceToSimple g)) (fst p) (snd p)))
      else None)"
    unfolding e f by (simp add: r0_def)
qed

lemma valid_number_iff:
  assumes "seen b (set all_cells) (rows s) (cols s) (squares s)" "i < 9" "j < 9"
  shows "num \<in> set (getValidNumbers s i j) \<longleftrightarrow>
         num \<in> set digits \<and> (\<forall>q\<in>set all_cells. related (i, j) q \<longrightarrow> cell_at b q \<noteq> Some num)"
  using seen_conflict [OF assms, of num] by (auto simp: getValidNumbers_iff)

lemma agrees_valid:
  assumes "complete S" "agrees b S"
  shows "conflict_free_on (set all_cells) b"
  unfolding conflict_free_on_def
proof (intro ballI impI)
  fix p q assume pq: "p \<in> set all_cells" "q \<in> set all_cells"
    and h: "cell_at b p \<noteq> None \<and> cell_at b p = cell_at b q \<and> related p q"
  then obtain v where v: "cell_at b p = Some v" "cell_at b q = Some v" by auto
  then have "cell_at S p = Some v" "cell_at S q = Some v"
    using assms(2) pq unfolding agrees_def by blast+
  then show "p = q"
    using assms(1) pq h conflict_free_onD [of "set all_cells" S p q v] unfolding complete_def
    by blast
qed

lemma good_init:
  assumes "wf_board g" "complete S" "agrees (boardWithSourceToSimple g) S"
  shows "good g S (auto_init g)"
proof -
  let ?vb = "boardWithSourceToSimple g"
  have v: "isValidBoard ?vb"
    using agrees_valid [OF assms(2,3)] by (simp add: isValidBoard_iff unique_inv_iff)
  have ai: "auto_inv g (auto_init g)" by (rule auto_inv_init [OF assms(1) v])
  have sn: "seen ?vb (set all_cells) (rows (constructor ?vb)) (cols (constructor ?vb))
      (squares (constructor ?vb))"
    by (rule constructor_seen)
  have "sol_inv S (auto_init g)"
    unfolding sol_inv_def auto_init_fields
  proof (intro ballI conjI allI impI)
    fix p v assume "p \<in> set all_cells" "cell_value (scell g p) = Some v"
    then show "cell_at S p = Some v"
      using assms(3) cell_at_values [OF assms(1)] unfolding agrees_def by auto
  next
    fix p assume p: "p \<in> set all_cells" and e: "cell_value (scell g p) = None"
    have b: "fst p < 9" "snd p < 9" using p by (auto simp: set_all_cells)
    let ?cc = "new_Set (getValidNumbers (constructor ?vb) (fst p) (snd p))"
    have "d \<in> set ?cc" if d: "cell_at S p = Some d" for d
    proof -
      have dd: "d \<in> set digits" using assms(2) p d unfolding complete_def by fastforce
      have "cell_at ?vb q \<noteq> Some d" if q: "q \<in> set all_cells" "related p q" for q
      proof
        assume c: "cell_at ?vb q = Some d"
        then have "cell_at S q = Some d" using assms(3) q(1) unfolding agrees_def by blast
        moreover have "q \<noteq> p" using c e cell_at_values [OF assms(1) p] by auto
        ultimately show False
          using solution_unique_in_unit [OF assms(2) p q(1) q(2) _ d] by auto
      qed
      then show ?thesis
        using valid_number_iff [OF sn b, of d] dd by simp
    qed
    moreover have "set ?cc \<subseteq> set digits"
      by (auto simp: getValidNumbers_iff)
    ultimately show "\<exists>cc. (if p \<in> set all_cells \<and> cell_value (scell g p) = None
           then Some ?cc else None) = Some cc \<and>
          distinct cc \<and> set cc \<subseteq> set digits \<and> (\<forall>d. cell_at S p = Some d \<longrightarrow> d \<in> set cc)"
      using p e by (intro exI [of _ ?cc]) (simp add: distinct_new_Set)
  qed
  then show ?thesis using ai assms(2) by (simp add: good_def)
qed

lemma main_loop_last_round:
  assumes "iterationChanges st" "\<not> iterationChanges (main_loop n st)"
  shows "quiet (main_loop n st)"
  using assms
proof (induction n arbitrary: st)
  case 0
  then show ?case by simp
next
  case (Suc n)
  let ?s1 = "propagation_round (st\<lparr>iterationChanges := False\<rparr>)"
  have m: "main_loop (Suc n) st = main_loop n ?s1" using Suc.prems(1) by simp
  show ?case
  proof (cases "iterationChanges ?s1")
    case True
    then show ?thesis using Suc.IH [of ?s1] Suc.prems(2) m by simp
  next
    case False
    have e: "?s1 = st\<lparr>iterationChanges := False\<rparr>"
      and q: "quiet (st\<lparr>iterationChanges := False\<rparr>)"
      using round_quiet [OF False] by simp_all
    have "main_loop n ?s1 = ?s1" by (rule main_loop_stopped [OF False])
    then have "main_loop (Suc n) st = st\<lparr>iterationChanges := False\<rparr>"
      unfolding m using e by simp
    then show ?thesis using q by simp
  qed
qed

subsection \<open>What a quiet state excludes\<close>

lemma quiet_naked:
  assumes "quiet sf" "i < 9" "j < 9" "cell_value (newBoard sf ! i ! j) = None"
    "candidates sf (i, j) = Some cc"
  shows "length cc \<noteq> 1"
proof
  assume "length cc = 1"
  then have "naked_step (i, j) sf = updateCell sf i j (cc ! 0)"
    using assms(4,5) by (simp add: naked_step_def)
  moreover have "naked_step (i, j) sf = sf" "\<not> iterationChanges sf"
    using assms(1-3) by (simp_all add: quiet_def set_all_cells)
  ultimately show False using ic_updateCell [of sf i j "cc ! 0"] by simp
qed

lemma quiet_hrow:
  assumes "quiet sf" "row < 9" "num \<in> set digits" "num \<notin> set (rows (solver sf) ! row)"
  shows "length (filter (\<lambda>col. has_candidate sf row col num) [0..<9]) \<noteq> 1"
proof
  let ?pc = "filter (\<lambda>col. has_candidate sf row col num) [0..<9]"
  assume "length ?pc = 1"
  then have "hrow_step (row, num) sf = updateCell sf row (?pc ! 0) num"
    using assms(4) by (simp add: hrow_step_def Let_def)
  moreover have "hrow_step (row, num) sf = sf" "\<not> iterationChanges sf"
    using assms(1-3) by (simp_all add: quiet_def)
  ultimately show False using ic_updateCell [of sf row "?pc ! 0" num] by simp
qed

lemma quiet_hcol:
  assumes "quiet sf" "col < 9" "num \<in> set digits" "num \<notin> set (cols (solver sf) ! col)"
  shows "length (filter (\<lambda>row. has_candidate sf row col num) [0..<9]) \<noteq> 1"
proof
  let ?pr = "filter (\<lambda>row. has_candidate sf row col num) [0..<9]"
  assume "length ?pr = 1"
  then have "hcol_step (col, num) sf = updateCell sf (?pr ! 0) col num"
    using assms(4) by (simp add: hcol_step_def Let_def)
  moreover have "hcol_step (col, num) sf = sf" "\<not> iterationChanges sf"
    using assms(1-3) by (simp_all add: quiet_def)
  ultimately show False using ic_updateCell [of sf "?pr ! 0" col num] by simp
qed

lemma quiet_hsq:
  assumes "quiet sf" "k < 9" "num \<in> set digits" "num \<notin> set (squares (solver sf) ! k)"
  shows "length (filter (\<lambda>(r, c). has_candidate sf r c num) (square_cells k)) \<noteq> 1"
proof
  let ?pc = "filter (\<lambda>(r, c). has_candidate sf r c num) (square_cells k)"
  assume "length ?pc = 1"
  then have "hsq_step (k, num) sf = updateCell sf (fst (?pc ! 0)) (snd (?pc ! 0)) num"
    using assms(4) by (simp add: hsq_step_def Let_def square_cells_product)
  moreover have "hsq_step (k, num) sf = sf" "\<not> iterationChanges sf"
    using assms(1-3) by (simp_all add: quiet_def)
  ultimately show False using ic_updateCell [of sf "fst (?pc ! 0)" "snd (?pc ! 0)" num] by simp
qed

lemma removeFlagged_unchanged:
  assumes "removeFlagged s r c num = s" "\<not> iterationChanges s"
  shows "\<not> has_candidate s r c num"
proof
  assume "has_candidate s r c num"
  then have "iterationChanges (removeFlagged s r c num)"
    by (auto simp: has_candidate_def removeFlagged_def removeCandidate_def split: option.splits)
  then show False using assms by simp
qed

lemma quiet_box:
  assumes "quiet sf" "k < 9" "num \<in> set digits" "num \<notin> set (squares (solver sf) ! k)"
  shows "box_rows k num sf = sf \<and> box_cols k num sf = sf"
proof -
  have n: "\<not> iterationChanges sf" and e: "boxLineStep k num sf = sf"
    using assms(1-3) by (auto simp: quiet_def)
  then have b: "box_cols k num (box_rows k num sf) = sf"
    using assms(4) by (simp add: boxLineStep_eq)
  have "\<not> iterationChanges (box_rows k num sf)"
    using box_cols_mono [of "box_rows k num sf" k num] b n by auto
  then have "box_rows k num sf = sf" using box_rows_dich [of k num sf] by simp
  then show ?thesis using b by simp
qed

lemma quiet_box_rows:
  assumes "quiet sf" "k < 9" "num \<in> set digits" "num \<notin> set (squares (solver sf) ! k)"
    and "length (rows_with sf k num) = 1" "col < 9"
    "\<not> (k mod 3 * 3 \<le> col \<and> col < k mod 3 * 3 + 3)"
  shows "\<not> has_candidate sf (rows_with sf k num ! 0) col num"
proof -
  have n: "\<not> iterationChanges sf" using assms(1) by (simp add: quiet_def)
  have "prune_row (k mod 3 * 3) (rows_with sf k num ! 0) num sf = sf"
    using quiet_box [OF assms(1-4)] assms(5) by (simp add: box_rows_def)
  then have "removeFlagged sf (rows_with sf k num ! 0) col num = sf"
    using prune_row_quiet [of "k mod 3 * 3" "rows_with sf k num ! 0" num sf] n assms(6,7) by simp
  then show ?thesis using n by (rule removeFlagged_unchanged)
qed

lemma quiet_box_cols:
  assumes "quiet sf" "k < 9" "num \<in> set digits" "num \<notin> set (squares (solver sf) ! k)"
    and "length (cols_with sf k num) = 1" "row < 9"
    "\<not> (k div 3 * 3 \<le> row \<and> row < k div 3 * 3 + 3)"
  shows "\<not> has_candidate sf row (cols_with sf k num ! 0) num"
proof -
  have n: "\<not> iterationChanges sf" using assms(1) by (simp add: quiet_def)
  have "prune_col (k div 3 * 3) (cols_with sf k num ! 0) num sf = sf"
    using quiet_box [OF assms(1-4)] assms(5) by (simp add: box_cols_def)
  then have "removeFlagged sf row (cols_with sf k num ! 0) num = sf"
    using prune_col_quiet [of "k div 3 * 3" "cols_with sf k num ! 0" num sf] n assms(6,7) by simp
  then show ?thesis using n by (rule removeFlagged_unchanged)
qed

subsection \<open>A run that starts above a quiet state\<close>

lemma paired_sets:
  assumes "paired g S sf st" "k < 9"
  shows "set (rows (solver st) ! k) = set (rows (solver sf) ! k)"
    "set (cols (solver st) ! k) = set (cols (solver sf) ! k)"
    "set (squares (solver st) ! k) = set (squares (solver sf) ! k)"
proof -
  have nb: "newBoard st = newBoard sf" using assms(1) by (simp add: paired_def above_def)
  have 1: "seen (boardWithSourceToSimple (newBoard sf)) (set all_cells)
      (rows (solver sf)) (cols (solver sf)) (squares (solver sf))"
    using assms(1) by (simp add: paired_def good_def auto_inv_def)
  have 2: "seen (boardWithSourceToSimple (newBoard sf)) (set all_cells)
      (rows (solver st)) (cols (solver st)) (squares (solver st))"
    using assms(1) nb by (simp add: paired_def auto_inv_def)
  show "set (rows (solver st) ! k) = set (rows (solver sf) ! k)"
    using 1 2 assms(2) unfolding seen_def by simp
  show "set (cols (solver st) ! k) = set (cols (solver sf) ! k)"
    using 1 2 assms(2) unfolding seen_def by simp
  show "set (squares (solver st) ! k) = set (squares (solver sf) ! k)"
    using 1 2 assms(2) unfolding seen_def by simp
qed

lemma paired_has_candidate:
  assumes "paired g S sf st" "i < 9" "j < 9" "has_candidate sf i j d"
  shows "has_candidate st i j d"
proof -
  have ab: "above sf st" using assms(1) by (simp add: paired_def)
  have p: "(i, j) \<in> set all_cells" using assms(2,3) by (simp add: set_all_cells)
  obtain cc where cc: "cell_value (scell (newBoard sf) (i, j)) = None"
    "candidates sf (i, j) = Some cc" "d \<in> set cc"
    using assms(4) by (auto simp: has_candidate_iff)
  obtain cc0 cc' where "candidates sf (i, j) = Some cc0" "candidates st (i, j) = Some cc'"
    "set cc0 \<subseteq> set cc'"
    using ab p cc(1) unfolding above_def by blast
  then have "candidates st (i, j) = Some cc'" "d \<in> set cc'" using cc by auto
  moreover have "newBoard st = newBoard sf" using ab by (simp add: above_def)
  ultimately show ?thesis using cc(1) by (auto simp: has_candidate_iff)
qed

lemma single_from_subset:
  assumes "set xs \<subseteq> {a}" "y \<in> set xs" "distinct xs"
  shows "length xs = 1 \<and> xs ! 0 = a"
proof -
  have "set xs = {a}" using assms(1,2) by auto
  then have "card (set xs) = 1" by simp
  then have l: "length xs = 1" using assms(3) by (simp add: distinct_card)
  then have "set xs = {xs ! 0}" by (rule single_list)
  then show ?thesis using l \<open>set xs = {a}\<close> by auto
qed

lemma paired_naked:
  assumes "paired g S sf st" "x \<in> set all_cells"
  shows "naked_step x st = st"
proof -
  obtain i j where x: "x = (i, j)" by (cases x)
  have b: "i < 9" "j < 9" using assms(2) x by (simp_all add: set_all_cells)
  have ab: "above sf st" and q: "quiet sf" and gd: "good g S sf"
    using assms(1) by (simp_all add: paired_def)
  have nb: "newBoard st = newBoard sf" using ab by (simp add: above_def)
  have "length cc' \<noteq> 1"
    if e: "cell_value (newBoard st ! i ! j) = None" and c': "candidates st (i, j) = Some cc'" for cc'
  proof
    assume l: "length cc' = 1"
    have e': "cell_value (scell (newBoard sf) (i, j)) = None" using e nb by (simp add: scell_def)
    obtain cc where cc: "candidates sf (i, j) = Some cc" "set cc \<subseteq> set cc'"
      using ab assms(2) x e' c' unfolding above_def by fastforce
    obtain d where d: "cell_at S (i, j) = Some d"
      using gd assms(2) x unfolding good_def complete_def by blast
    have "distinct cc" "d \<in> set cc"
      using gd assms(2) x e' cc(1) d unfolding good_def sol_inv_def by fastforce+
    then have "length cc = 1"
      using single_from_subset [of cc "cc' ! 0" d] cc(2) single_list [OF l] by simp
    then show False using quiet_naked [OF q b _ cc(1)] e nb by simp
  qed
  then show ?thesis by (auto simp: x naked_step_def split: option.splits)
qed

lemma paired_filter:
  assumes "paired g S sf st" "is_unit us" "num \<in> set digits"
    and "\<forall>p\<in>set us. cell_at (boardWithSourceToSimple (newBoard sf)) p \<noteq> Some num"
    and "length (filter (\<lambda>p. has_candidate st (fst p) (snd p) num) us) = 1"
  shows "length (filter (\<lambda>p. has_candidate sf (fst p) (snd p) num) us) = 1"
proof -
  let ?f = "filter (\<lambda>p. has_candidate sf (fst p) (snd p) num) us"
  let ?f' = "filter (\<lambda>p. has_candidate st (fst p) (snd p) num) us"
  have gd: "good g S sf" using assms(1) by (simp add: paired_def)
  obtain p where p: "p \<in> set us" "has_candidate sf (fst p) (snd p) num"
    using hidden_exists [of S g sf us num] gd assms(2-4) unfolding good_def by blast
  have "set ?f \<subseteq> set ?f'"
  proof
    fix q assume "q \<in> set ?f"
    then have q: "q \<in> set us" "has_candidate sf (fst q) (snd q) num" by simp_all
    then have "fst q < 9" "snd q < 9" using assms(2) by (auto simp: is_unit_def set_all_cells)
    then show "q \<in> set ?f'" using paired_has_candidate [OF assms(1) _ _ q(2)] q(1) by simp
  qed
  then have 1: "set ?f \<subseteq> {?f' ! 0}" using single_list [OF assms(5)] by simp
  have 2: "p \<in> set ?f" using p by simp
  have 3: "distinct ?f" using assms(2) by (simp add: is_unit_def)
  show ?thesis using single_from_subset [OF 1 2 3] by (rule conjunct1)
qed

lemma paired_hrow:
  assumes "paired g S sf st" "x \<in> set (List.product [0..<9] digits)"
  shows "hrow_step x st = st"
proof -
  obtain row num where x: "x = (row, num)" by (cases x)
  have b: "row < 9" "num \<in> set digits" using assms(2) x by simp_all
  have q: "quiet sf" and ai: "auto_inv g sf" using assms(1) by (simp_all add: paired_def good_def)
  have "length (filter (\<lambda>col. has_candidate st row col num) [0..<9]) \<noteq> 1"
    if n: "num \<notin> set (rows (solver st) ! row)"
  proof
    assume l: "length (filter (\<lambda>col. has_candidate st row col num) [0..<9]) = 1"
    have n': "num \<notin> set (rows (solver sf) ! row)" using n paired_sets(1) [OF assms(1) b(1)] by simp
    have "length (filter (\<lambda>p. has_candidate sf (fst p) (snd p) num) (map (\<lambda>j. (row, j)) [0..<9])) = 1"
      by (rule paired_filter [OF assms(1) is_unit_row [OF b(1)] b(2) seen_rowD [OF ai b(1) n']])
         (use l in \<open>simp add: o_def\<close>)
    then show False using quiet_hrow [OF q b n'] by (simp add: o_def)
  qed
  then show ?thesis by (auto simp: x hrow_step_def Let_def)
qed

lemma paired_hcol:
  assumes "paired g S sf st" "x \<in> set (List.product [0..<9] digits)"
  shows "hcol_step x st = st"
proof -
  obtain col num where x: "x = (col, num)" by (cases x)
  have b: "col < 9" "num \<in> set digits" using assms(2) x by simp_all
  have q: "quiet sf" and ai: "auto_inv g sf" using assms(1) by (simp_all add: paired_def good_def)
  have "length (filter (\<lambda>row. has_candidate st row col num) [0..<9]) \<noteq> 1"
    if n: "num \<notin> set (cols (solver st) ! col)"
  proof
    assume l: "length (filter (\<lambda>row. has_candidate st row col num) [0..<9]) = 1"
    have n': "num \<notin> set (cols (solver sf) ! col)" using n paired_sets(2) [OF assms(1) b(1)] by simp
    have "length (filter (\<lambda>p. has_candidate sf (fst p) (snd p) num) (map (\<lambda>i. (i, col)) [0..<9])) = 1"
      by (rule paired_filter [OF assms(1) is_unit_col [OF b(1)] b(2) seen_colD [OF ai b(1) n']])
         (use l in \<open>simp add: o_def\<close>)
    then show False using quiet_hcol [OF q b n'] by (simp add: o_def)
  qed
  then show ?thesis by (auto simp: x hcol_step_def Let_def)
qed

lemma paired_hsq:
  assumes "paired g S sf st" "x \<in> set (List.product [0..<9] digits)"
  shows "hsq_step x st = st"
proof -
  obtain k num where x: "x = (k, num)" by (cases x)
  have b: "k < 9" "num \<in> set digits" using assms(2) x by simp_all
  have q: "quiet sf" and ai: "auto_inv g sf" using assms(1) by (simp_all add: paired_def good_def)
  have "length (filter (\<lambda>(r, c). has_candidate st r c num) (square_cells k)) \<noteq> 1"
    if n: "num \<notin> set (squares (solver st) ! k)"
  proof
    assume l: "length (filter (\<lambda>(r, c). has_candidate st r c num) (square_cells k)) = 1"
    have n': "num \<notin> set (squares (solver sf) ! k)" using n paired_sets(3) [OF assms(1) b(1)] by simp
    have "length (filter (\<lambda>p. has_candidate sf (fst p) (snd p) num) (square_cells k)) = 1"
      by (rule paired_filter [OF assms(1) is_unit_square [OF b(1)] b(2) seen_squareD [OF ai b(1) n']])
         (use l in \<open>simp add: split_def\<close>)
    then show False using quiet_hsq [OF q b n'] by (simp add: split_def)
  qed
  then show ?thesis by (auto simp: x hsq_step_def Let_def square_cells_product)
qed

lemma removeFlagged_fields:
  "newBoard (removeFlagged s r c num) = newBoard s"
  "candidates (removeFlagged s r c num) =
     (if cell_value (newBoard s ! r ! c) = None
      then (candidates s)((r, c) := map_option (set_delete num) (candidates s (r, c)))
      else candidates s)"
proof -
  obtain b s' where rc: "removeCandidate s r c num = (b, s')" by (cases "removeCandidate s r c num")
  then have s': "s' = s\<lparr>candidates := (candidates s)((r, c) :=
      map_option (set_delete num) (candidates s (r, c)))\<rparr>"
    using removeCandidate_snd [of s r c num] by simp
  show "newBoard (removeFlagged s r c num) = newBoard s"
    using rc s' by (cases b) (simp_all add: removeFlagged_def)
  show "candidates (removeFlagged s r c num) =
     (if cell_value (newBoard s ! r ! c) = None
      then (candidates s)((r, c) := map_option (set_delete num) (candidates s (r, c)))
      else candidates s)"
    using rc s' by (cases b) (simp_all add: removeFlagged_def)
qed

lemma above_removeFlagged:
  assumes "above sf s" "\<not> has_candidate sf r c num"
  shows "above sf (removeFlagged s r c num)"
  unfolding above_def
proof (intro conjI ballI impI)
  show "newBoard (removeFlagged s r c num) = newBoard sf"
    using assms(1) by (simp add: removeFlagged_fields above_def)
next
  fix p assume p: "p \<in> set all_cells" and e: "cell_value (scell (newBoard sf) p) = None"
  obtain cc cc' where c: "candidates sf p = Some cc" "candidates s p = Some cc'"
    "set cc \<subseteq> set cc'" "distinct cc'"
    using assms(1) p e unfolding above_def by blast
  show "\<exists>cc cc'. candidates sf p = Some cc \<and> candidates (removeFlagged s r c num) p = Some cc' \<and>
      set cc \<subseteq> set cc' \<and> distinct cc'"
  proof (cases "p = (r, c) \<and> cell_value (newBoard s ! r ! c) = None")
    case False
    then have "candidates (removeFlagged s r c num) p = Some cc'"
      using c(2) by (auto simp: removeFlagged_fields)
    then show ?thesis using c by simp
  next
    case True
    then have 1: "candidates (removeFlagged s r c num) p = Some (set_delete num cc')"
      using c(2) by (simp add: removeFlagged_fields)
    have "num \<notin> set cc" using assms(2) True e c(1) by (auto simp: has_candidate_iff)
    then have "set cc \<subseteq> set (set_delete num cc')" using c(3) by auto
    then show ?thesis using 1 c(1,4) by (simp add: distinct_set_delete)
  qed
qed

lemma paired_removeFlagged:
  assumes "paired g S sf s" "\<not> has_candidate sf r c num"
  shows "paired g S sf (removeFlagged s r c num)"
  using assms above_removeFlagged [of sf s r c num]
  by (simp add: paired_def auto_inv_removeFlagged)

lemma paired_prune_row:
  assumes "paired g S sf st"
    and "\<forall>col<9. \<not> (a \<le> col \<and> col < a + 3) \<longrightarrow> \<not> has_candidate sf r col num"
  shows "paired g S sf (prune_row a r num st)"
  unfolding prune_row_def
proof (rule fold_invariant [where P = "paired g S sf"])
  show "paired g S sf st" by (rule assms(1))
next
  fix x s assume x: "x \<in> set [0..<9]" and s: "paired g S sf s"
  show "paired g S sf (if a \<le> x \<and> x < a + 3 then s else removeFlagged s r x num)"
  proof (cases "a \<le> x \<and> x < a + 3")
    case True
    then show ?thesis using s by simp
  next
    case False
    have "x < 9" using x by simp
    then have "\<not> has_candidate sf r x num" using assms(2) False by blast
    then have "paired g S sf (removeFlagged s r x num)" by (rule paired_removeFlagged [OF s])
    then show ?thesis by (simp only: False if_False)
  qed
qed

lemma paired_prune_col:
  assumes "paired g S sf st"
    and "\<forall>row<9. \<not> (a \<le> row \<and> row < a + 3) \<longrightarrow> \<not> has_candidate sf row c num"
  shows "paired g S sf (prune_col a c num st)"
  unfolding prune_col_def
proof (rule fold_invariant [where P = "paired g S sf"])
  show "paired g S sf st" by (rule assms(1))
next
  fix x s assume x: "x \<in> set [0..<9]" and s: "paired g S sf s"
  show "paired g S sf (if a \<le> x \<and> x < a + 3 then s else removeFlagged s x c num)"
  proof (cases "a \<le> x \<and> x < a + 3")
    case True
    then show ?thesis using s by simp
  next
    case False
    have "x < 9" using x by simp
    then have "\<not> has_candidate sf x c num" using assms(2) False by blast
    then have "paired g S sf (removeFlagged s x c num)" by (rule paired_removeFlagged [OF s])
    then show ?thesis by (simp only: False if_False)
  qed
qed

lemma paired_square_cell:
  assumes "paired g S sf st" "k < 9" "num \<in> set digits" "num \<notin> set (squares (solver st) ! k)"
  shows "num \<notin> set (squares (solver sf) ! k)"
    "\<exists>p\<in>set (square_cells k). has_candidate sf (fst p) (snd p) num"
    "{p \<in> set (square_cells k). has_candidate sf (fst p) (snd p) num}
       \<subseteq> {p \<in> set (square_cells k). has_candidate st (fst p) (snd p) num}"
proof -
  show n: "num \<notin> set (squares (solver sf) ! k)"
    using assms(4) paired_sets(3) [OF assms(1,2)] by simp
  have gd: "good g S sf" using assms(1) by (simp add: paired_def)
  show "\<exists>p\<in>set (square_cells k). has_candidate sf (fst p) (snd p) num"
    using square_solution_cell [OF gd assms(2,3) n] by blast
  show "{p \<in> set (square_cells k). has_candidate sf (fst p) (snd p) num}
       \<subseteq> {p \<in> set (square_cells k). has_candidate st (fst p) (snd p) num}"
  proof
    fix p assume "p \<in> {p \<in> set (square_cells k). has_candidate sf (fst p) (snd p) num}"
    then have p: "p \<in> set (square_cells k)" "has_candidate sf (fst p) (snd p) num" by simp_all
    have "p \<in> set all_cells" using is_unit_square [OF assms(2)] p(1) by (auto simp: is_unit_def)
    then have "fst p < 9" "snd p < 9" by (auto simp: set_all_cells)
    then have "has_candidate st (fst p) (snd p) num"
      using paired_has_candidate [OF assms(1) _ _ p(2)] by simp
    then show "p \<in> {p \<in> set (square_cells k). has_candidate st (fst p) (snd p) num}"
      using p(1) by simp
  qed
qed

lemma paired_box_rows:
  assumes "paired g S sf st" "k < 9" "num \<in> set digits" "num \<notin> set (squares (solver st) ! k)"
  shows "paired g S sf (box_rows k num st)"
proof (cases "length (rows_with st k num) = 1")
  case False
  then show ?thesis using assms(1) by (simp add: box_rows_def)
next
  case True
  have q: "quiet sf" using assms(1) by (simp add: paired_def)
  note sq = paired_square_cell [OF assms]
  obtain p where p: "p \<in> set (square_cells k)" "has_candidate sf (fst p) (snd p) num"
    using sq(2) by blast
  have 1: "set (rows_with sf k num) \<subseteq> {rows_with st k num ! 0}"
    using sq(3) single_list [OF True] unfolding set_rows_with by blast
  have 2: "fst p \<in> set (rows_with sf k num)" using p unfolding set_rows_with by blast
  have 3: "distinct (rows_with sf k num)" by (simp add: rows_with_def distinct_new_Set)
  have l: "length (rows_with sf k num) = 1" and e: "rows_with sf k num ! 0 = rows_with st k num ! 0"
    using single_from_subset [OF 1 2 3] by simp_all
  have "\<forall>col<9. \<not> (k mod 3 * 3 \<le> col \<and> col < k mod 3 * 3 + 3) \<longrightarrow>
      \<not> has_candidate sf (rows_with st k num ! 0) col num"
    using quiet_box_rows [OF q assms(2,3) sq(1) l] e by simp
  then have "paired g S sf (prune_row (k mod 3 * 3) (rows_with st k num ! 0) num st)"
    by (rule paired_prune_row [OF assms(1)])
  then show ?thesis using True by (simp add: box_rows_def)
qed

lemma paired_box_cols:
  assumes "paired g S sf st" "k < 9" "num \<in> set digits" "num \<notin> set (squares (solver st) ! k)"
  shows "paired g S sf (box_cols k num st)"
proof (cases "length (cols_with st k num) = 1")
  case False
  then show ?thesis using assms(1) by (simp add: box_cols_def)
next
  case True
  have q: "quiet sf" using assms(1) by (simp add: paired_def)
  note sq = paired_square_cell [OF assms]
  obtain p where p: "p \<in> set (square_cells k)" "has_candidate sf (fst p) (snd p) num"
    using sq(2) by blast
  have 1: "set (cols_with sf k num) \<subseteq> {cols_with st k num ! 0}"
    using sq(3) single_list [OF True] unfolding set_cols_with by blast
  have 2: "snd p \<in> set (cols_with sf k num)" using p unfolding set_cols_with by blast
  have 3: "distinct (cols_with sf k num)" by (simp add: cols_with_def distinct_new_Set)
  have l: "length (cols_with sf k num) = 1" and e: "cols_with sf k num ! 0 = cols_with st k num ! 0"
    using single_from_subset [OF 1 2 3] by simp_all
  have "\<forall>row<9. \<not> (k div 3 * 3 \<le> row \<and> row < k div 3 * 3 + 3) \<longrightarrow>
      \<not> has_candidate sf row (cols_with st k num ! 0) num"
    using quiet_box_cols [OF q assms(2,3) sq(1) l] e by simp
  then have "paired g S sf (prune_col (k div 3 * 3) (cols_with st k num ! 0) num st)"
    by (rule paired_prune_col [OF assms(1)])
  then show ?thesis using True by (simp add: box_cols_def)
qed

lemma paired_boxLineStep:
  assumes "paired g S sf st" "k < 9" "num \<in> set digits"
  shows "paired g S sf (boxLineStep k num st)"
proof (cases "num \<in> set (squares (solver st) ! k)")
  case True
  then show ?thesis using assms(1) by (simp add: boxLineStep_eq)
next
  case False
  have 1: "paired g S sf (box_rows k num st)" by (rule paired_box_rows [OF assms False])
  have "num \<notin> set (squares (solver (box_rows k num st)) ! k)" using False by simp
  then have "paired g S sf (box_cols k num (box_rows k num st))"
    by (rule paired_box_cols [OF 1 assms(2,3)])
  then show ?thesis using False by (simp add: boxLineStep_eq)
qed

lemma paired_round:
  assumes "paired g S sf st"
  shows "paired g S sf (propagation_round st)"
proof -
  let ?U = "List.product [0..<9] digits"
  have 1: "nakedSingles st = st"
    unfolding nakedSingles_fold by (rule fold_unchanged) (rule paired_naked [OF assms])
  have 2: "hiddenRows st = st"
    unfolding hiddenRows_fold by (rule fold_unchanged) (rule paired_hrow [OF assms])
  have 3: "hiddenCols st = st"
    unfolding hiddenCols_fold by (rule fold_unchanged) (rule paired_hcol [OF assms])
  have 4: "hiddenSquares st = st"
    unfolding hiddenSquares_fold by (rule fold_unchanged) (rule paired_hsq [OF assms])
  have "paired g S sf (boxLineReduction st)"
    unfolding boxLineReduction_fold
  proof (rule fold_invariant [where P = "paired g S sf"])
    show "paired g S sf st" by (rule assms)
  next
    fix x s assume "x \<in> set ?U" "paired g S sf s"
    then show "paired g S sf (boxLineStep (fst x) (snd x) s)"
      by (intro paired_boxLineStep) auto
  qed
  then show ?thesis by (simp add: propagation_round_def 1 2 3 4)
qed

lemma paired_flag [simp]: "paired g S sf (st\<lparr>iterationChanges := x\<rparr>) = paired g S sf st"
  by (simp add: paired_def above_def)

lemma paired_main_loop: "paired g S sf st \<Longrightarrow> paired g S sf (main_loop n st)"
proof (induction n arbitrary: st)
  case 0
  then show ?case by simp
next
  case (Suc n)
  have "paired g S sf (propagation_round (st\<lparr>iterationChanges := False\<rparr>))"
    using Suc.prems by (intro paired_round) simp
  then show ?case using Suc.IH Suc.prems by simp
qed

lemma paired_init:
  assumes "quiet sf" "good g S sf"
  shows "paired g S sf (auto_init (newBoard sf))"
proof -
  let ?g1 = "newBoard sf"
  let ?vb = "boardWithSourceToSimple ?g1"
  have ai: "auto_inv g sf" and si: "sol_inv S sf" using assms(2) by (simp_all add: good_def)
  have wf: "wf_board ?g1" and cf: "conflict_free_on (set all_cells) ?vb"
    and cs: "cands_sound ?vb (candidates sf)"
    using ai by (simp_all add: auto_inv_def)
  have v: "isValidBoard ?vb" using cf wf by (simp add: isValidBoard_iff unique_inv_iff)
  have 1: "auto_inv ?g1 (auto_init ?g1)" by (rule auto_inv_init [OF wf v])
  have sn: "seen ?vb (set all_cells) (rows (constructor ?vb)) (cols (constructor ?vb))
      (squares (constructor ?vb))"
    by (rule constructor_seen)
  have "above sf (auto_init ?g1)"
    unfolding above_def
  proof (intro conjI ballI impI)
    show "newBoard (auto_init ?g1) = ?g1" by (simp add: auto_init_fields)
  next
    fix p assume p: "p \<in> set all_cells" and e: "cell_value (scell ?g1 p) = None"
    have b: "fst p < 9" "snd p < 9" using p by (auto simp: set_all_cells)
    obtain cc where cc: "candidates sf p = Some cc" "set cc \<subseteq> set digits"
      using si p e unfolding sol_inv_def by blast
    let ?cc' = "new_Set (getValidNumbers (constructor ?vb) (fst p) (snd p))"
    have c': "candidates (auto_init ?g1) p = Some ?cc'" using p e by (simp add: auto_init_fields)
    have "set cc \<subseteq> set ?cc'"
    proof
      fix d assume d: "d \<in> set cc"
      have "\<forall>q\<in>set all_cells. related p q \<longrightarrow> cell_at ?vb q \<noteq> Some d"
        using cs p cc(1) d unfolding cands_sound_def by blast
      then have "d \<in> set (getValidNumbers (constructor ?vb) (fst p) (snd p))"
        using valid_number_iff [OF sn b, of d] cc(2) d by auto
      then show "d \<in> set ?cc'" by (simp add: set_new_Set)
    qed
    then show "\<exists>cc cc'. candidates sf p = Some cc \<and> candidates (auto_init ?g1) p = Some cc' \<and>
        set cc \<subseteq> set cc' \<and> distinct cc'"
      using cc(1) c' distinct_new_Set by blast
  qed
  then show ?thesis using assms 1 by (simp add: paired_def)
qed

subsection \<open>The second call\<close>

lemma second_run_board:
  assumes "wf_board g" "complete S" "agrees (boardWithSourceToSimple g) S"
    and "\<not> iterationChanges (main_loop n (auto_init g))"
  shows "newBoard (main_loop m (auto_init (newBoard (main_loop n (auto_init g))))) =
         newBoard (main_loop n (auto_init g))"
    "isValidBoard (boardWithSourceToSimple (newBoard (main_loop n (auto_init g))))"
proof -
  let ?sf = "main_loop n (auto_init g)"
  have gd: "good g S ?sf" by (rule good_main_loop [OF good_init [OF assms(1-3)]])
  have q: "quiet ?sf" by (rule main_loop_last_round [OF auto_init_fields(3) assms(4)])
  have "paired g S ?sf (main_loop m (auto_init (newBoard ?sf)))"
    by (rule paired_main_loop [OF paired_init [OF q gd]])
  then show "newBoard (main_loop m (auto_init (newBoard ?sf))) = newBoard ?sf"
    by (simp add: paired_def above_def)
  have "auto_inv g ?sf" using gd by (simp add: good_def)
  then show "isValidBoard (boardWithSourceToSimple (newBoard ?sf))"
    by (simp add: auto_inv_def isValidBoard_iff unique_inv_iff)
qed

lemma autoSolveCells_idem:
  assumes "wf_board g" "complete S" "agrees (boardWithSourceToSimple g) S"
    and "\<not> iterationChanges (main_loop maxIterations (auto_init g))"
  shows "autoSolveCells (autoSolveCells g) = autoSolveCells g"
proof -
  let ?sf = "main_loop maxIterations (auto_init g)"
  show ?thesis
  proof (cases "autoSolveCells g = g")
    case True
    then show ?thesis by simp
  next
    case False
    then have e: "autoSolveCells g = newBoard ?sf" using autoSolveCells_cases [of g] by simp
    have "autoSolveCells (newBoard ?sf) = newBoard ?sf"
      using second_run_board(1) [OF assms, of maxIterations] second_run_board(2) [OF assms]
      by (simp add: autoSolveCells_def Let_def)
    then show ?thesis using e by simp
  qed
qed

lemma completion_ofD:
  assumes "completion_of S b"
  shows "complete S" "agrees b S"
proof -
  have "conflict_free_on (set all_cells) S" using assms by (simp add: completion_of_def unique_inv_iff)
  then show "complete S" using assms by (simp add: complete_def completion_of_def)
  show "agrees b S" using assms unfolding agrees_def completion_of_def by fastforce
qed

lemma open_first_call: "autoSolveCells open_board = open_done"
  by code_simp

lemma open_quiet: "\<not> iterationChanges (main_loop maxIterations (auto_init open_board))"
  by code_simp

lemma open_completion: "completion_of valid_solved (boardWithSourceToSimple open_board)"
  by code_simp

text \<open>
  C3, amended: on a 9x9 board, a second call of autoSolveCells returns every cell that is
  filled after the first call as it is (it can only fill cells that the first call left
  empty). The second call returns the same board,
  autoSolveCells (autoSolveCells g) = autoSolveCells g, when the first call leaves no cell
  empty, and also when the board has a completion and the loop of the first call has ended
  on a round that changed nothing (and not on the iteration cap).
\<close>

theorem propagate_twice:
  assumes "wf_board g" "i < 9" "j < 9"
  shows "(cell_value (autoSolveCells g ! i ! j) \<noteq> None \<longrightarrow>
            autoSolveCells (autoSolveCells g) ! i ! j = autoSolveCells g ! i ! j) \<and>
         (no_empty (boardWithSourceToSimple (autoSolveCells g)) \<longrightarrow>
            autoSolveCells (autoSolveCells g) = autoSolveCells g) \<and>
         (completion_of S (boardWithSourceToSimple g) \<and>
          \<not> iterationChanges (main_loop maxIterations (auto_init g)) \<longrightarrow>
            autoSolveCells (autoSolveCells g) = autoSolveCells g)"
proof -
  have w: "wf_board (autoSolveCells g)" using autoSolveCells_wf_frame [OF assms(1)] by simp
  have "frame (autoSolveCells g) (autoSolveCells (autoSolveCells g))"
    using autoSolveCells_wf_frame [OF w] by simp
  from frame_cell [OF this assms(2,3)]
  have 1: "cell_value (autoSolveCells g ! i ! j) \<noteq> None \<longrightarrow>
      autoSolveCells (autoSolveCells g) ! i ! j = autoSolveCells g ! i ! j"
    by blast
  have 2: "no_empty (boardWithSourceToSimple (autoSolveCells g)) \<longrightarrow>
      autoSolveCells (autoSolveCells g) = autoSolveCells g"
    using autoSolveCells_full [OF w] by blast
  have 3: "autoSolveCells (autoSolveCells g) = autoSolveCells g"
    if "completion_of S (boardWithSourceToSimple g)"
      "\<not> iterationChanges (main_loop maxIterations (auto_init g))"
    using autoSolveCells_idem [OF assms(1) completion_ofD [OF that(1)] that(2)] .
  show ?thesis using 1 2 3 by blast
qed


lemma easy_first_call: "autoSolveCells easy_board = easy_done"
  by code_simp

theorem propagate_twice_witness:
  "wf_board stuck_board \<and> wf_board easy_board \<and> wf_board open_board \<and>
   autoSolveCells (autoSolveCells stuck_board) ! 3 ! 0 = autoSolveCells stuck_board ! 3 ! 0 \<and>
   autoSolveCells (autoSolveCells easy_board) = autoSolveCells easy_board \<and>
   completion_of valid_solved (boardWithSourceToSimple open_board) \<and>
   \<not> iterationChanges (main_loop maxIterations (auto_init open_board)) \<and>
   autoSolveCells open_board \<noteq> open_board \<and>
   \<not> no_empty (boardWithSourceToSimple (autoSolveCells open_board)) \<and>
   autoSolveCells (autoSolveCells open_board) = autoSolveCells open_board"
proof -
  have w: "wf_board stuck_board" by code_simp
  have w': "wf_board easy_board" by code_simp
  have w'': "wf_board open_board" by code_simp
  have n: "(3::nat) < 9" "(0::nat) < 9" by simp_all
  have "cell_value (stuck_once ! 3 ! 0) \<noteq> None" by code_simp
  then have a: "cell_value (autoSolveCells stuck_board ! 3 ! 0) \<noteq> None"
    by (simp add: stuck_first_call)
  have "no_empty (boardWithSourceToSimple easy_done)" by code_simp
  then have b: "no_empty (boardWithSourceToSimple (autoSolveCells easy_board))"
    by (simp add: easy_first_call)
  have "open_done \<noteq> open_board" by code_simp
  then have c: "autoSolveCells open_board \<noteq> open_board" by (simp add: open_first_call)
  have "\<not> no_empty (boardWithSourceToSimple open_done)" by code_simp
  then have d: "\<not> no_empty (boardWithSourceToSimple (autoSolveCells open_board))"
    by (simp add: open_first_call)
  have 1: "autoSolveCells (autoSolveCells stuck_board) ! 3 ! 0 = autoSolveCells stuck_board ! 3 ! 0"
    using propagate_twice [OF w n] a by blast
  have 2: "autoSolveCells (autoSolveCells easy_board) = autoSolveCells easy_board"
    using propagate_twice [OF w' n] b by blast
  have 3: "autoSolveCells (autoSolveCells open_board) = autoSolveCells open_board"
    using propagate_twice [OF w'' n, of valid_solved] open_completion open_quiet by blast
  show ?thesis using w w' w'' 1 2 3 c d open_completion open_quiet by blast
qed

section \<open>Witnesses for the invariants of autoSolveCells\<close>

theorem autoSolveCells_frame_witness:
  "wf_board stuck_once \<and>
   stuck_once ! 3 ! 0 = \<lparr>cell_value = Some ''7'', cell_source = Some System\<rparr> \<and>
   autoSolveCells stuck_once ! 3 ! 0 = stuck_once ! 3 ! 0 \<and>
   cell_value (autoSolveCells stuck_once ! 3 ! 0) = Some ''7'' \<and>
   autoSolveCells stuck_once ! 3 ! 1 = stuck_once ! 3 ! 1 \<and>
   cell_value (stuck_once ! 4 ! 0) = None \<and>
   cell_value (autoSolveCells stuck_once ! 4 ! 0) \<noteq> None \<and>
   cell_source (autoSolveCells stuck_once ! 4 ! 0) = Some System"
proof -
  have w: "wf_board stuck_once" by code_simp
  have n: "(3::nat) < 9" "(1::nat) < 9" "(0::nat) < 9" "(4::nat) < 9" by simp_all
  have s: "stuck_once ! 3 ! 0 = \<lparr>cell_value = Some ''7'', cell_source = Some System\<rparr>"
    by code_simp
  have a: "cell_value (stuck_once ! 3 ! 1) \<noteq> None" by code_simp
  have "stuck_twice ! 4 ! 0 \<noteq> stuck_once ! 4 ! 0" by code_simp
  then have b: "autoSolveCells stuck_once ! 4 ! 0 \<noteq> stuck_once ! 4 ! 0"
    by (simp add: stuck_second_call)
  have 1: "autoSolveCells stuck_once ! 3 ! 0 = stuck_once ! 3 ! 0"
    using autoSolveCells_frame [OF w n(1) n(3)] s by simp
  have 2: "autoSolveCells stuck_once ! 3 ! 1 = stuck_once ! 3 ! 1"
    using autoSolveCells_frame [OF w n(1) n(2)] a by blast
  have 3: "cell_value (stuck_once ! 4 ! 0) = None \<and>
      cell_value (autoSolveCells stuck_once ! 4 ! 0) \<noteq> None \<and>
      cell_source (autoSolveCells stuck_once ! 4 ! 0) = Some System"
    using autoSolveCells_frame [OF w n(4) n(3)] b by blast
  show ?thesis using w s 1 2 3 by simp
qed

theorem propagate_solve_keep_unique_witness:
  "wf_board stuck_board \<and> unique_inv (boardWithSourceToSimple stuck_board) \<and>
   unique_inv (boardWithSourceToSimple (autoSolveCells stuck_board))"
proof -
  have w: "wf_board stuck_board" by code_simp
  have u: "unique_inv (boardWithSourceToSimple stuck_board)" by code_simp
  show ?thesis using propagate_solve_keep_unique [OF w u] w u by blast
qed

end
